theory Spec2Isabelle
  imports Complex_Main "HOL-Library.Word"
begin

section \<open>Floating-point values\<close>

text \<open>
  The C++ accounts keep their balance, interest rate and overdraft limit in a
  \<^verbatim>\<open>double\<close>, the C account keeps its balance in a \<^verbatim>\<open>float\<close>. Both are modelled by
  their values: \<open>Finite m e\<close> is the number \<open>m * 2 ^ e\<close>, next to the two infinities and
  NaN. The sign of a zero is not kept: the code only adds, subtracts, multiplies and
  compares, and none of these tells the two zeros apart.

  Arithmetic is IEEE 754 arithmetic in the default rounding mode: the exact result is
  rounded to the nearest value of the format, a tie to the one with the even
  significand, and every operator rounds on its own (no fused multiply-add, no
  extended precision). \<^verbatim>\<open>double\<close> is binary64 (53 bits of significand), \<^verbatim>\<open>float\<close> is
  binary32 (24 bits), \<^verbatim>\<open>int\<close> has 32 bits.
\<close>

datatype fpval = Finite int int | PosInf | NegInf | NaN

text \<open>The number of binary digits of a positive integer.\<close>

function bitlen :: "int \<Rightarrow> int" where
  "bitlen n = (if n \<le> 0 then 0 else 1 + bitlen (n div 2))"
  by pat_completeness auto
termination
  by (relation "measure nat") auto

declare bitlen.simps [simp del]

text \<open>The unique representation of \<open>m * 2 ^ e\<close>: an odd \<open>m\<close>, or zero.\<close>

function canon :: "int \<Rightarrow> int \<Rightarrow> fpval" where
  "canon m e =
     (if m = 0 then Finite 0 0
      else if even m then canon (m div 2) (e + 1)
      else Finite m e)"
  by pat_completeness auto
termination
  by (relation "measure (\<lambda>(m, e). nat \<bar>m\<bar>)") auto

declare canon.simps [simp del]

text \<open>\<open>a / 2 ^ s\<close> rounded to the nearest integer, a tie to the even one (\<open>0 \<le> a\<close>).\<close>

definition round_half_even :: "int \<Rightarrow> nat \<Rightarrow> int" where
  "round_half_even a s =
     (let d = a div 2 ^ s; r = a mod 2 ^ s; h = 2 ^ (s - 1)
      in if r < h then d else if h < r then d + 1 else if even d then d else d + 1)"

text \<open>
  \<open>round_fp p qmin emax m e\<close> rounds \<open>m * 2 ^ e\<close> to the format with \<open>p\<close> bits of
  significand, least quantum \<open>2 ^ qmin\<close> (the spacing of the subnormal numbers) and
  all finite values below \<open>2 ^ emax\<close>. The quantum \<open>2 ^ q\<close> of the result follows from
  the magnitude of the argument; a rounded result of \<open>2 ^ emax\<close> or more overflows to
  an infinity.
\<close>

definition round_fp :: "int \<Rightarrow> int \<Rightarrow> int \<Rightarrow> int \<Rightarrow> int \<Rightarrow> fpval" where
  "round_fp p qmin emax m e =
     (if m = 0 then Finite 0 0
      else
        let q = max (bitlen \<bar>m\<bar> + e - p) qmin;
            n = (if q \<le> e then \<bar>m\<bar> else round_half_even \<bar>m\<bar> (nat (q - e)));
            q' = max q e
        in if emax < bitlen n + q' then (if 0 < m then PosInf else NegInf)
           else canon (sgn m * n) q')"

definition round_double :: "int \<Rightarrow> int \<Rightarrow> fpval" where
  "round_double = round_fp 53 (- 1074) 1024"

definition round_float :: "int \<Rightarrow> int \<Rightarrow> fpval" where
  "round_float = round_fp 24 (- 149) 128"

definition is_finite :: "fpval \<Rightarrow> bool" where
  "is_finite x = (case x of Finite m e \<Rightarrow> True | _ \<Rightarrow> False)"

text \<open>The real number a finite value stands for.\<close>

definition valof :: "fpval \<Rightarrow> real" where
  "valof x = (case x of Finite m e \<Rightarrow> of_int m * 2 powi e | _ \<Rightarrow> 0)"

fun dneg :: "fpval \<Rightarrow> fpval" where
  "dneg (Finite m e) = Finite (- m) e"
| "dneg PosInf = NegInf"
| "dneg NegInf = PosInf"
| "dneg NaN = NaN"

text \<open>\<^verbatim>\<open>x + y\<close> on \<^verbatim>\<open>double\<close>.\<close>

fun dadd :: "fpval \<Rightarrow> fpval \<Rightarrow> fpval" where
  "dadd (Finite m1 e1) (Finite m2 e2) =
     (let e = min e1 e2
      in round_double (m1 * 2 ^ nat (e1 - e) + m2 * 2 ^ nat (e2 - e)) e)"
| "dadd NaN y = NaN"
| "dadd x NaN = NaN"
| "dadd PosInf NegInf = NaN"
| "dadd NegInf PosInf = NaN"
| "dadd PosInf y = PosInf"
| "dadd x PosInf = PosInf"
| "dadd NegInf y = NegInf"
| "dadd x NegInf = NegInf"

text \<open>\<^verbatim>\<open>x - y\<close> on \<^verbatim>\<open>double\<close>.\<close>

definition dsub :: "fpval \<Rightarrow> fpval \<Rightarrow> fpval" where
  "dsub x y = dadd x (dneg y)"

text \<open>\<^verbatim>\<open>x * y\<close> on \<^verbatim>\<open>double\<close>.\<close>

fun dmul :: "fpval \<Rightarrow> fpval \<Rightarrow> fpval" where
  "dmul (Finite m1 e1) (Finite m2 e2) = round_double (m1 * m2) (e1 + e2)"
| "dmul NaN y = NaN"
| "dmul x NaN = NaN"
| "dmul (Finite m e) PosInf = (if m = 0 then NaN else if 0 < m then PosInf else NegInf)"
| "dmul (Finite m e) NegInf = (if m = 0 then NaN else if 0 < m then NegInf else PosInf)"
| "dmul PosInf (Finite m e) = (if m = 0 then NaN else if 0 < m then PosInf else NegInf)"
| "dmul NegInf (Finite m e) = (if m = 0 then NaN else if 0 < m then NegInf else PosInf)"
| "dmul PosInf PosInf = PosInf"
| "dmul PosInf NegInf = NegInf"
| "dmul NegInf PosInf = NegInf"
| "dmul NegInf NegInf = PosInf"

text \<open>\<^verbatim>\<open>x < y\<close> and \<^verbatim>\<open>x <= y\<close>: false as soon as one side is NaN.\<close>

fun dlt :: "fpval \<Rightarrow> fpval \<Rightarrow> bool" where
  "dlt (Finite m1 e1) (Finite m2 e2) =
     (let e = min e1 e2 in m1 * 2 ^ nat (e1 - e) < m2 * 2 ^ nat (e2 - e))"
| "dlt NaN y = False"
| "dlt x NaN = False"
| "dlt x NegInf = False"
| "dlt PosInf y = False"
| "dlt NegInf y = True"
| "dlt x PosInf = True"

fun dle :: "fpval \<Rightarrow> fpval \<Rightarrow> bool" where
  "dle (Finite m1 e1) (Finite m2 e2) =
     (let e = min e1 e2 in m1 * 2 ^ nat (e1 - e) \<le> m2 * 2 ^ nat (e2 - e))"
| "dle NaN y = False"
| "dle x NaN = False"
| "dle NegInf y = True"
| "dle x PosInf = True"
| "dle x NegInf = False"
| "dle PosInf y = False"

text \<open>\<^verbatim>\<open>x > y\<close> and \<^verbatim>\<open>x >= y\<close>.\<close>

definition dgt :: "fpval \<Rightarrow> fpval \<Rightarrow> bool" where
  "dgt x y = dlt y x"

definition dge :: "fpval \<Rightarrow> fpval \<Rightarrow> bool" where
  "dge x y = dle y x"

text \<open>The literals \<^verbatim>\<open>0\<close> and \<^verbatim>\<open>0.0\<close>.\<close>

definition dzero :: fpval where
  "dzero = Finite 0 0"

text \<open>
  \<open>fits_double m e\<close>: the significand \<open>m\<close> has at most 53 bits, the quantum \<open>2 ^ e\<close> is at
  least \<open>2 ^ - 1074\<close>, and \<open>m * 2 ^ e\<close> is below \<open>2 ^ 1024\<close> in magnitude.
\<close>

definition fits_double :: "int \<Rightarrow> int \<Rightarrow> bool" where
  "fits_double m e = (bitlen \<bar>m\<bar> \<le> 53 \<and> - 1074 \<le> e \<and> bitlen \<bar>m\<bar> + e \<le> 1024)"

text \<open>
  The values of \<^verbatim>\<open>double\<close>: the numbers whose unique representation fits, the
  infinities and NaN. The type \<open>fpval\<close> has more finite values than these; the
  arguments of the methods and the fields of the objects are values of \<^verbatim>\<open>double\<close>.
\<close>

definition is_double :: "fpval \<Rightarrow> bool" where
  "is_double x =
     (case x of
        Finite m e \<Rightarrow> (case canon m e of Finite m' e' \<Rightarrow> fits_double m' e' | _ \<Rightarrow> False)
      | _ \<Rightarrow> True)"

text \<open>A whole number with a representation that shows it.\<close>

definition whole :: "fpval \<Rightarrow> bool" where
  "whole x = (case x of Finite m e \<Rightarrow> 0 \<le> e | _ \<Rightarrow> False)"

section \<open>The C++ accounts (example.cpp)\<close>

text \<open>
  \<^verbatim>\<open>class Account\<close> with its protected fields; the derived classes extend the record
  as they extend the class. A method takes the object and returns it updated. The
  field \<^verbatim>\<open>id_\<close> of the source is \<open>id_m\<close> here, and so on: a name cannot end with an
  underscore.
\<close>

record account =
  id_m :: "32 word"
  name_m :: string
  balance_m :: fpval

record savings_account = account +
  interestRate_m :: fpval

record checking_account = account +
  overdraftLimit_m :: fpval

text \<open>\<^verbatim>\<open>Account(int id, const std::string& name) : id_(id), name_(name), balance_(0.0)\<close>\<close>

definition Account :: "32 word \<Rightarrow> string \<Rightarrow> account" where
  "Account ident name = \<lparr>id_m = ident, name_m = name, balance_m = dzero\<rparr>"

text \<open>\<^verbatim>\<open>SavingsAccount(id, name, rate) : Account(id, name), interestRate_(rate)\<close>\<close>

definition SavingsAccount :: "32 word \<Rightarrow> string \<Rightarrow> fpval \<Rightarrow> savings_account" where
  "SavingsAccount ident name rate =
     account.extend (Account ident name) (savings_account.fields rate)"

text \<open>\<^verbatim>\<open>CheckingAccount(id, name, limit) : Account(id, name), overdraftLimit_(limit)\<close>\<close>

definition CheckingAccount :: "32 word \<Rightarrow> string \<Rightarrow> fpval \<Rightarrow> checking_account" where
  "CheckingAccount ident name limit =
     account.extend (Account ident name) (checking_account.fields limit)"

definition getId :: "'a account_scheme \<Rightarrow> 32 word" where
  "getId this = id_m this"

definition getName :: "'a account_scheme \<Rightarrow> string" where
  "getName this = name_m this"

definition getBalance :: "'a account_scheme \<Rightarrow> fpval" where
  "getBalance this = balance_m this"

text \<open>\<^verbatim>\<open>Account::deposit\<close>, inherited by both derived classes.\<close>

definition deposit :: "fpval \<Rightarrow> 'a account_scheme \<Rightarrow> 'a account_scheme" where
  "deposit amount this =
     (if dgt amount dzero
      then this\<lparr>balance_m := dadd (balance_m this) amount\<rparr>
      else this)"

text \<open>\<^verbatim>\<open>Account::withdraw\<close>, the one a SavingsAccount runs.\<close>

definition withdraw :: "fpval \<Rightarrow> 'a account_scheme \<Rightarrow> 'a account_scheme" where
  "withdraw amount this =
     (if dgt amount dzero \<and> dge (balance_m this) amount
      then this\<lparr>balance_m := dsub (balance_m this) amount\<rparr>
      else this)"

text \<open>\<^verbatim>\<open>SavingsAccount::applyInterest\<close>\<close>

definition applyInterest :: "'a savings_account_scheme \<Rightarrow> 'a savings_account_scheme" where
  "applyInterest this =
     this\<lparr>balance_m := dadd (balance_m this) (dmul (balance_m this) (interestRate_m this))\<rparr>"

text \<open>\<^verbatim>\<open>CheckingAccount::withdraw\<close>, the override.\<close>

definition CheckingAccount_withdraw ::
    "fpval \<Rightarrow> 'a checking_account_scheme \<Rightarrow> 'a checking_account_scheme" where
  "CheckingAccount_withdraw amount this =
     (if dgt amount dzero \<and> dge (dadd (balance_m this) (overdraftLimit_m this)) amount
      then this\<lparr>balance_m := dsub (balance_m this) amount\<rparr>
      else this)"

text \<open>
  A client of a CheckingAccount: a finite sequence of deposits and withdrawals through
  the object (the dynamic type decides, so \<^verbatim>\<open>withdraw\<close> is the override).
\<close>

datatype account_op = Deposit fpval | Withdraw fpval

fun apply_op :: "account_op \<Rightarrow> checking_account \<Rightarrow> checking_account" where
  "apply_op (Deposit amount) this = deposit amount this"
| "apply_op (Withdraw amount) this = CheckingAccount_withdraw amount this"

fun run_ops :: "account_op list \<Rightarrow> checking_account \<Rightarrow> checking_account" where
  "run_ops [] this = this"
| "run_ops (x # xs) this = run_ops xs (apply_op x this)"

text \<open>
  An operation of the machine is exact when its operands and its result are finite and
  the result is the exact sum, difference or product: nothing was rounded.
\<close>

definition exact_add :: "fpval \<Rightarrow> fpval \<Rightarrow> bool" where
  "exact_add x y =
     (is_finite x \<and> is_finite y \<and> is_finite (dadd x y) \<and> valof (dadd x y) = valof x + valof y)"

definition exact_sub :: "fpval \<Rightarrow> fpval \<Rightarrow> bool" where
  "exact_sub x y =
     (is_finite x \<and> is_finite y \<and> is_finite (dsub x y) \<and> valof (dsub x y) = valof x - valof y)"

definition exact_mul :: "fpval \<Rightarrow> fpval \<Rightarrow> bool" where
  "exact_mul x y =
     (is_finite x \<and> is_finite y \<and> is_finite (dmul x y) \<and> valof (dmul x y) = valof x * valof y)"

section \<open>The C accounts (example.c)\<close>

text \<open>
  \<^verbatim>\<open>typedef struct { int id; char name[50]; float balance; } Account;\<close>
  The array is the list of its 50 bytes. The fields carry the suffix \<open>_c\<close>.
\<close>

record Account_c =
  id_c :: "32 word"
  name_c :: "char list"
  balance_c :: fpval

definition NUL :: char where
  "NUL = CHR 0x00"

text \<open>The C string that starts at the head of a list of bytes: the bytes before the first NUL.\<close>

definition c_str :: "char list \<Rightarrow> string" where
  "c_str bytes = takeWhile (\<lambda>c. c \<noteq> NUL) bytes"

text \<open>
  \<^verbatim>\<open>strncpy(dest, src, n)\<close> writes exactly \<open>n\<close> bytes to \<open>dest\<close>: the string \<open>src\<close>, cut
  after \<open>n\<close> bytes or filled up with NUL bytes. The destination has at least \<open>n\<close> bytes.
\<close>

definition strncpy :: "char list \<Rightarrow> char list \<Rightarrow> nat \<Rightarrow> char list" where
  "strncpy dest src n = take n (c_str src @ replicate n NUL) @ drop n dest"

text \<open>\<^verbatim>\<open>sizeof(acc->name)\<close>\<close>

definition sizeof_name :: nat where
  "sizeof_name = 50"

text \<open>
  \<^verbatim>\<open>create_account\<close>. The first argument is what \<^verbatim>\<open>malloc(sizeof(Account))\<close> returned:
  \<open>None\<close> for \<^verbatim>\<open>NULL\<close>, or a block of any content. The last argument and the second
  component of the result are the global \<^verbatim>\<open>account_counter\<close> before and after the
  call; \<^verbatim>\<open>account_counter++\<close> is the addition of the machine, which wraps around
  (ISO C leaves an overflow of \<^verbatim>\<open>int\<close> undefined).
\<close>

definition create_account ::
    "Account_c option \<Rightarrow> 32 word \<Rightarrow> char list \<Rightarrow> 32 word \<Rightarrow> Account_c option \<times> 32 word" where
  "create_account mem ident name account_counter =
     (case mem of
        None \<Rightarrow> (None, account_counter)
      | Some acc0 \<Rightarrow>
          let acc1 = acc0\<lparr>id_c := ident\<rparr>;
              acc2 = acc1\<lparr>name_c := strncpy (name_c acc1) name (sizeof_name - 1)\<rparr>;
              acc3 = acc2\<lparr>name_c := (name_c acc2)[sizeof_name - 1 := NUL]\<rparr>;
              acc4 = acc3\<lparr>balance_c := round_float 0 0\<rparr>
          in (Some acc4, account_counter + 1))"

text \<open>\<^verbatim>\<open>static int account_counter = 0;\<close>\<close>

definition account_counter_init :: "32 word" where
  "account_counter_init = 0"

text \<open>
  A process that calls \<^verbatim>\<open>create_account\<close> once for every request of a list, in order;
  a request is the outcome of \<^verbatim>\<open>malloc\<close>, the id and the name.
\<close>

fun create_accounts ::
    "(Account_c option \<times> 32 word \<times> char list) list \<Rightarrow> 32 word \<Rightarrow> Account_c option list \<times> 32 word" where
  "create_accounts [] account_counter = ([], account_counter)"
| "create_accounts ((mem, ident, name) # rs) account_counter =
     (case create_account mem ident name account_counter of
        (r, counter1) \<Rightarrow>
          (case create_accounts rs counter1 of
             (results, counter2) \<Rightarrow> (r # results, counter2)))"

text \<open>A block as \<^verbatim>\<open>malloc\<close> may return it: 50 bytes of name, nothing initialised.\<close>

definition block0 :: Account_c where
  "block0 = \<lparr>id_c = 0, name_c = replicate 50 (CHR ''?''), balance_c = NaN\<rparr>"

section \<open>The overdraft limit as an invariant\<close>

text \<open>
  A CheckingAccount is within its limit when balance and limit are finite and the
  balance is not below the negated limit.
\<close>

definition within_limit :: "checking_account \<Rightarrow> bool" where
  "within_limit this =
     (is_finite (balance_m this) \<and> is_finite (overdraftLimit_m this) \<and>
      - valof (overdraftLimit_m this) \<le> valof (balance_m this))"

section \<open>Floating-point values and the real numbers\<close>

text \<open>
  The comparisons on finite values are the comparisons of the real numbers they stand
  for, and \<open>canon\<close> keeps the number.
\<close>

lemma valof_canon: "valof (canon m e) = of_int m * 2 powi e"
proof (induction m e rule: canon.induct)
  case (1 m e)
  show ?case
  proof (cases "m = 0")
    case True
    then show ?thesis by (simp add: canon.simps valof_def)
  next
    case False
    show ?thesis
    proof (cases "even m")
      case True
      then obtain k where k: "m = 2 * k" by (auto elim: evenE)
      have "valof (canon m e) = valof (canon (m div 2) (e + 1))"
        using False True by (subst canon.simps) simp
      also have "\<dots> = of_int (m div 2) * 2 powi (e + 1)"
        using "1.IH" False True by simp
      also have "\<dots> = of_int m * 2 powi e"
        using k by (simp add: power_int_add)
      finally show ?thesis .
    next
      case odd: False
      then show ?thesis using False by (subst canon.simps) (simp add: valof_def)
    qed
  qed
qed

lemma is_finite_canon: "is_finite (canon m e)"
proof (induction m e rule: canon.induct)
  case (1 m e)
  then show ?case
    by (subst canon.simps) (simp add: is_finite_def)
qed

lemma is_finiteE: "is_finite x \<Longrightarrow> (\<And>m e. x = Finite m e \<Longrightarrow> P) \<Longrightarrow> P"
  by (cases x) (simp_all add: is_finite_def)

lemma scale_powi:
  assumes "e \<le> e1"
  shows "real_of_int (m * 2 ^ nat (e1 - e)) * 2 powi e = of_int m * 2 powi e1"
proof -
  have "(2::real) powi e1 = 2 powi (e1 - e) * 2 powi e"
    by (simp add: power_int_add [symmetric])
  moreover have "(2::real) powi (e1 - e) = 2 ^ nat (e1 - e)"
    using assms by (simp add: power_int_def)
  ultimately show ?thesis by simp
qed

lemma dlt_Finite:
  "dlt (Finite m1 e1) (Finite m2 e2) \<longleftrightarrow> valof (Finite m1 e1) < valof (Finite m2 e2)"
proof -
  define e where "e = min e1 e2"
  have le: "e \<le> e1" "e \<le> e2" by (simp_all add: e_def)
  have pos: "(0::real) < 2 powi e" by simp
  have "valof (Finite m1 e1) < valof (Finite m2 e2) \<longleftrightarrow>
        real_of_int (m1 * 2 ^ nat (e1 - e)) * 2 powi e < real_of_int (m2 * 2 ^ nat (e2 - e)) * 2 powi e"
    by (simp only: scale_powi [OF le(1)] scale_powi [OF le(2)] valof_def fpval.case)
  also have "\<dots> \<longleftrightarrow> real_of_int (m1 * 2 ^ nat (e1 - e)) < real_of_int (m2 * 2 ^ nat (e2 - e))"
    using pos by (simp only: mult_less_cancel_right_pos)
  also have "\<dots> \<longleftrightarrow> m1 * 2 ^ nat (e1 - e) < m2 * 2 ^ nat (e2 - e)"
    by (simp only: of_int_less_iff)
  finally show ?thesis by (simp add: e_def Let_def)
qed

lemma dle_Finite:
  "dle (Finite m1 e1) (Finite m2 e2) \<longleftrightarrow> valof (Finite m1 e1) \<le> valof (Finite m2 e2)"
proof -
  define e where "e = min e1 e2"
  have le: "e \<le> e1" "e \<le> e2" by (simp_all add: e_def)
  have pos: "(0::real) < 2 powi e" by simp
  have "valof (Finite m1 e1) \<le> valof (Finite m2 e2) \<longleftrightarrow>
        real_of_int (m1 * 2 ^ nat (e1 - e)) * 2 powi e \<le> real_of_int (m2 * 2 ^ nat (e2 - e)) * 2 powi e"
    by (simp only: scale_powi [OF le(1)] scale_powi [OF le(2)] valof_def fpval.case)
  also have "\<dots> \<longleftrightarrow> real_of_int (m1 * 2 ^ nat (e1 - e)) \<le> real_of_int (m2 * 2 ^ nat (e2 - e))"
    using pos by (simp only: mult_le_cancel_right_pos)
  also have "\<dots> \<longleftrightarrow> m1 * 2 ^ nat (e1 - e) \<le> m2 * 2 ^ nat (e2 - e)"
    by (simp only: of_int_le_iff)
  finally show ?thesis by (simp add: e_def Let_def)
qed

lemma dlt_valof: "is_finite x \<Longrightarrow> is_finite y \<Longrightarrow> dlt x y \<longleftrightarrow> valof x < valof y"
  by (elim is_finiteE) (simp only: dlt_Finite)

lemma dle_valof: "is_finite x \<Longrightarrow> is_finite y \<Longrightarrow> dle x y \<longleftrightarrow> valof x \<le> valof y"
  by (elim is_finiteE) (simp only: dle_Finite)

lemma dlt_NaN: "\<not> dlt x NaN" "\<not> dlt NaN y"
  by (cases x) simp_all

lemma dle_NaN: "\<not> dle x NaN" "\<not> dle NaN y"
  by (cases x) simp_all

lemma is_finite_dzero: "is_finite dzero"
  by (simp add: dzero_def is_finite_def)

lemma valof_dzero: "valof dzero = 0"
  by (simp add: dzero_def valof_def)

lemma dgt_zero_valof: "is_finite a \<Longrightarrow> dgt a dzero \<longleftrightarrow> 0 < valof a"
  by (simp add: dgt_def dlt_valof valof_dzero is_finite_dzero)

lemma dge_valof: "is_finite x \<Longrightarrow> is_finite y \<Longrightarrow> dge x y \<longleftrightarrow> valof y \<le> valof x"
  by (simp add: dge_def dle_valof)

text \<open>
  Concrete runs are evaluated with the defining equations (\<open>code_simp\<close>); the
  simplifier keeps the arithmetic on finite values folded.
\<close>

declare dadd.simps(1) [simp del] dmul.simps(1) [simp del] dlt.simps(1) [simp del] dle.simps(1) [simp del]

section \<open>The arithmetic on known values\<close>

text \<open>
  0.1 + 0.2 is 0.30000000000000004; \<open>2\<^sup>5\<^sup>3 + 1\<close> is \<open>2\<^sup>5\<^sup>3\<close> and \<open>2\<^sup>5\<^sup>3 + 3\<close> is \<open>2\<^sup>5\<^sup>3 + 4\<close>
  (ties go to the even significand); the greatest finite value added to itself is
  infinite, a quarter of a unit in its last place leaves it as it is and half a unit
  takes it to infinity; the least positive value halved is zero, three times that
  value halved is two times that value; infinity minus infinity and zero times
  infinity are NaN.
\<close>

lemma known_sums:
  "dadd (Finite 3602879701896397 (- 55)) (Finite 3602879701896397 (- 54)) = Finite 1351079888211149 (- 52)"
  "dadd (Finite 1 53) (Finite 1 0) = Finite 1 53"
  "dadd (Finite 1 53) (Finite 3 0) = Finite 2251799813685249 2"
  "dadd (Finite 9007199254740991 971) (Finite 9007199254740991 971) = PosInf"
  "dadd (Finite 9007199254740991 971) (Finite 1 969) = Finite 9007199254740991 971"
  "dadd (Finite 9007199254740991 971) (Finite 1 970) = PosInf"
  "dmul (Finite 1 (- 1074)) (Finite 1 (- 1)) = Finite 0 0"
  "dmul (Finite 3 (- 1074)) (Finite 1 (- 1)) = Finite 1 (- 1073)"
  "dsub PosInf PosInf = NaN"
  "dmul (Finite 0 0) NegInf = NaN"
  by code_simp+

text \<open>The amounts that the examples below use are values of \<^verbatim>\<open>double\<close>.\<close>

lemma known_doubles:
  "is_double (Finite 125 3)" "is_double (Finite 125 2)" "is_double (Finite 25 5)"
  "is_double (Finite 75 3)" "is_double (Finite 75 2)" "is_double (Finite 125 4)"
  "is_double (Finite (- 5) 0)" "is_double (Finite 1 (- 2))" "is_double (Finite 1 0)"
  "is_double (Finite 1 53)" "is_double (Finite 1 54)" "is_double (Finite 1 (- 53))"
  "is_double (Finite 3602879701896397 (- 56))"
  "is_double (Finite 4503599627370497 1)" "is_double (Finite 2251799813685249 2)"
  "is_double (Finite 75 4)" "is_double (Finite 0 0)" "is_double (Finite 1200 0)"
  "is_double (Finite 9007199254740992 0)" "is_double (Finite 6 (- 1075))"
  "\<not> is_double (Finite 1 (- 1075))" "\<not> is_double (Finite 1 1024)"
  "is_double (Finite 3602879701896397 (- 55))" "is_double (Finite 3602879701896397 (- 54))"
  "is_double (Finite 5404319552844595 (- 54))" "is_double (Finite 1351079888211149 (- 52))"
  "\<not> is_double (Finite 9007199254740993 0)" "\<not> is_double (Finite 9007199254740995 0)"
  by code_simp+

section \<open>Whole amounts below \<open>2\<^sup>5\<^sup>3\<close> are added and subtracted exactly\<close>

lemma bitlen_le: "0 \<le> k \<Longrightarrow> n < 2 ^ nat k \<Longrightarrow> bitlen n \<le> k"
proof (induction n arbitrary: k rule: bitlen.induct)
  case (1 n)
  show ?case
  proof (cases "n \<le> 0")
    case True
    with "1.prems" show ?thesis by (simp add: bitlen.simps)
  next
    case False
    then have k: "0 < k"
      using "1.prems" by (cases "k = 0") auto
    then obtain j where j: "nat k = Suc j"
      by (cases "nat k") auto
    have "n div 2 < 2 ^ nat (k - 1)"
      using "1.prems" j by (simp add: nat_diff_distrib) 
    then have "bitlen (n div 2) \<le> k - 1"
      using "1.IH" [of "k - 1"] False k by simp
    with False show ?thesis by (simp add: bitlen.simps)
  qed
qed

lemma canon_whole: "0 \<le> e \<Longrightarrow> whole (canon m e)"
proof (induction m e rule: canon.induct)
  case (1 m e)
  then show ?case
    by (subst canon.simps) (simp add: whole_def)
qed

lemma round_double_small:
  assumes "0 \<le> e" and "\<bar>m\<bar> * 2 ^ nat e < 2 ^ 53"
  shows "round_double m e = canon m e"
proof (cases "m = 0")
  case True
  then show ?thesis by (simp add: round_double_def round_fp_def canon.simps)
next
  case False
  have e: "e \<le> 53"
  proof (rule ccontr)
    assume "\<not> e \<le> 53"
    then have "(2::int) ^ 53 \<le> 2 ^ nat e"
      by (intro power_increasing) simp_all
    moreover have "1 * (2::int) ^ nat e \<le> \<bar>m\<bar> * 2 ^ nat e"
      using False by (intro mult_right_mono) simp_all
    ultimately show False using assms(2) by linarith
  qed
  have "\<bar>m\<bar> * 2 ^ nat e < 2 ^ nat (53 - e) * (2::int) ^ nat e"
    using assms e by (simp add: power_add [symmetric] nat_add_distrib [symmetric])
  then have "\<bar>m\<bar> < 2 ^ nat (53 - e)"
    by simp
  then have l: "bitlen \<bar>m\<bar> \<le> 53 - e"
    using e by (intro bitlen_le) simp_all
  consider "0 < m" | "m < 0"
    using False by linarith
  then show ?thesis
  proof cases
    case 1
    with l have "bitlen m + e \<le> 53" by simp
    with 1 assms(1) show ?thesis
      by (simp add: round_double_def round_fp_def Let_def max_def)
  next
    case 2
    with l have "bitlen (- m) + e \<le> 53" by simp
    with 2 assms(1) show ?thesis
      by (simp add: round_double_def round_fp_def Let_def max_def)
  qed
qed

lemma whole_is_finite: "whole x \<Longrightarrow> is_finite x"
  by (cases x) (simp_all add: whole_def is_finite_def)

lemma whole_dneg: "whole x \<Longrightarrow> whole (dneg x) \<and> valof (dneg x) = - valof x"
  by (cases x) (simp_all add: whole_def valof_def)

lemma whole_add_exact:
  assumes "whole x" and "whole y" and "\<bar>valof x + valof y\<bar> < 2 ^ 53"
  shows "exact_add x y \<and> whole (dadd x y)"
proof -
  from assms(1,2) obtain m1 e1 m2 e2
    where x: "x = Finite m1 e1" "0 \<le> e1" and y: "y = Finite m2 e2" "0 \<le> e2"
    by (cases x; cases y) (simp_all add: whole_def)
  define e where "e = min e1 e2"
  define m where "m = m1 * 2 ^ nat (e1 - e) + m2 * 2 ^ nat (e2 - e)"
  have le: "e \<le> e1" "e \<le> e2" "0 \<le> e"
    using x y by (simp_all add: e_def)
  have "real_of_int m * 2 powi e =
      real_of_int (m1 * 2 ^ nat (e1 - e)) * 2 powi e + real_of_int (m2 * 2 ^ nat (e2 - e)) * 2 powi e"
    by (simp only: m_def of_int_add distrib_right)
  also have "\<dots> = real_of_int m1 * 2 powi e1 + real_of_int m2 * 2 powi e2"
    by (simp only: scale_powi [OF le(1)] scale_powi [OF le(2)])
  finally have v: "valof x + valof y = real_of_int m * 2 powi e"
    by (simp add: x y valof_def)
  also have "\<dots> = real_of_int (m * 2 ^ nat e)"
    using le(3) by (simp add: power_int_def)
  finally have "\<bar>real_of_int (m * 2 ^ nat e)\<bar> < 2 ^ 53"
    using assms(3) by simp
  then have "\<bar>m * 2 ^ nat e\<bar> < 2 ^ 53"
    by (metis of_int_abs of_int_less_iff of_int_numeral of_int_power)
  then have "\<bar>m\<bar> * 2 ^ nat e < 2 ^ 53"
    by (simp add: abs_mult)
  then have "round_double m e = canon m e"
    using le(3) by (intro round_double_small)
  then have d: "dadd x y = canon m e"
    by (simp add: x y dadd.simps(1) Let_def m_def e_def)
  show ?thesis
    using v le(3) by (simp add: d exact_add_def is_finite_canon valof_canon canon_whole)
      (simp add: x y is_finite_def)
qed

lemma whole_sub_exact:
  assumes "whole x" and "whole y" and "\<bar>valof x - valof y\<bar> < 2 ^ 53"
  shows "exact_sub x y \<and> whole (dsub x y)"
proof -
  have "exact_add x (dneg y) \<and> whole (dadd x (dneg y))"
    using assms whole_dneg [of y] by (intro whole_add_exact) simp_all
  then show ?thesis
    using assms(2) whole_dneg [of y]
    by (simp add: exact_add_def exact_sub_def dsub_def whole_is_finite)
qed

section \<open>The error of rounding\<close>

text \<open>
  \<open>bitlen\<close> is the position of the leading bit, so the quantum \<open>2 ^ q\<close> that \<open>round_fp\<close>
  chooses is the spacing of the format at the magnitude of its argument. A finite
  result of \<open>round_double\<close> is the argument itself when the argument is a multiple of
  the quantum, and differs from it by at most half the quantum otherwise.
\<close>

lemma bitlen_bounds:
  "0 < n \<Longrightarrow> 2 ^ nat (bitlen n - 1) \<le> n \<and> n < 2 ^ nat (bitlen n) \<and> 0 < bitlen n"
proof (induction n rule: bitlen.induct)
  case (1 n)
  show ?case
  proof (cases "n = 1")
    case True
    then show ?thesis by (simp add: bitlen.simps)
  next
    case False
    with "1.prems" have pos: "0 < n div 2" by simp
    then have IH: "2 ^ nat (bitlen (n div 2) - 1) \<le> n div 2" "n div 2 < 2 ^ nat (bitlen (n div 2))"
      "0 < bitlen (n div 2)"
      using "1.IH" "1.prems" by simp_all
    have b: "bitlen n = 1 + bitlen (n div 2)"
      using "1.prems" by (subst bitlen.simps) simp
    have e1: "nat (bitlen n - 1) = Suc (nat (bitlen (n div 2) - 1))"
      using IH(3) b by simp
    have e2: "nat (bitlen n) = Suc (nat (bitlen (n div 2)))"
      using IH(3) b by simp
    have p1: "(2::int) ^ nat (bitlen n - 1) = 2 * 2 ^ nat (bitlen (n div 2) - 1)"
      by (simp only: e1 power_Suc)
    have p2: "(2::int) ^ nat (bitlen n) = 2 * 2 ^ nat (bitlen (n div 2))"
      by (simp only: e2 power_Suc)
    have "2 * 2 ^ nat (bitlen (n div 2) - 1) \<le> n"
      using IH(1) by linarith
    moreover have "n < 2 * 2 ^ nat (bitlen (n div 2))"
      using IH(2) by linarith
    moreover have "0 < bitlen n"
      using IH(3) b by simp
    ultimately show ?thesis
      by (simp only: p1 p2)
  qed
qed

lemma round_half_even_nearest:
  assumes "0 < s"
  shows "\<bar>round_half_even a s * 2 ^ s - a\<bar> * 2 \<le> 2 ^ s"
proof -
  define d r h where "d = a div 2 ^ s" and "r = a mod 2 ^ s" and "h = (2::int) ^ (s - 1)"
  have a: "a = d * 2 ^ s + r"
    unfolding d_def r_def by (rule div_mult_mod_eq [symmetric])
  have r: "0 \<le> r" "r < 2 ^ s"
    by (simp_all add: r_def)
  have h: "2 * h = 2 ^ s"
    using assms by (cases s) (simp_all add: h_def)
  have "round_half_even a s = d \<and> r \<le> h \<or> round_half_even a s = d + 1 \<and> h \<le> r"
    by (auto simp add: round_half_even_def Let_def d_def r_def h_def)
  then show ?thesis
  proof
    assume *: "round_half_even a s = d \<and> r \<le> h"
    then have "round_half_even a s * 2 ^ s - a = - r"
      by (simp add: a)
    with * r h show ?thesis by simp
  next
    assume *: "round_half_even a s = d + 1 \<and> h \<le> r"
    then have "round_half_even a s * 2 ^ s - a = 2 ^ s - r"
      by (simp add: a algebra_simps)
    with * r h show ?thesis by simp
  qed
qed

lemma round_double_error:
  assumes "round_double m e = Finite m' e'"
  shows "\<bar>valof (Finite m' e') - of_int m * 2 powi e\<bar> \<le>
         (if max (bitlen \<bar>m\<bar> + e - 53) (- 1074) \<le> e then 0
          else 2 powi (max (bitlen \<bar>m\<bar> + e - 53) (- 1074) - 1))"
proof (cases "m = 0")
  case True
  with assms show ?thesis
    by (auto simp add: round_double_def round_fp_def valof_def)
next
  case False
  define q where "q = max (bitlen \<bar>m\<bar> + e - 53) (- 1074)"
  show ?thesis
  proof (cases "q \<le> e")
    case True
    with assms False have "canon (sgn m * \<bar>m\<bar>) e = Finite m' e'"
      by (simp add: round_double_def round_fp_def Let_def q_def [symmetric] max_absorb2 split: if_splits)
    then have "valof (Finite m' e') = of_int m * 2 powi e"
      using valof_canon [of "sgn m * \<bar>m\<bar>" e] by (simp add: mult_sgn_abs)
    with True show ?thesis
      unfolding q_def [symmetric] by simp
  next
    case gt: False
    define s where "s = nat (q - e)"
    define n where "n = round_half_even \<bar>m\<bar> s"
    have s: "0 < s" "q = e + int s"
      using gt by (simp_all add: s_def)
    from assms False gt have "canon (sgn m * n) q = Finite m' e'"
      by (simp add: round_double_def round_fp_def Let_def q_def [symmetric] max_absorb1 n_def s_def
          split: if_splits)
    then have v: "valof (Finite m' e') = of_int (sgn m * n) * 2 powi q"
      using valof_canon [of "sgn m * n" q] by simp
    have "real_of_int (sg * n) * 2 powi q - of_int (sg * am) * 2 powi e =
        real_of_int (sg * (n * 2 ^ s - am)) * 2 powi e" for sg am :: int
      by (simp add: s(2) power_int_add algebra_simps)
    from this [of "sgn m" "\<bar>m\<bar>"]
    have "real_of_int (sgn m * n) * 2 powi q - of_int m * 2 powi e =
        real_of_int (sgn m * (n * 2 ^ s - \<bar>m\<bar>)) * 2 powi e"
      by (simp only: mult_sgn_abs)
    then have "\<bar>valof (Finite m' e') - of_int m * 2 powi e\<bar> =
        \<bar>real_of_int (sgn m * (n * 2 ^ s - \<bar>m\<bar>))\<bar> * 2 powi e"
      by (simp only: v abs_mult) simp
    also have "\<bar>real_of_int (sgn m * (n * 2 ^ s - \<bar>m\<bar>))\<bar> = real_of_int \<bar>n * 2 ^ s - \<bar>m\<bar>\<bar>"
      using False by (simp only: of_int_abs [symmetric] abs_mult) (simp add: sgn_if)
    finally have "\<bar>valof (Finite m' e') - of_int m * 2 powi e\<bar> =
        real_of_int \<bar>n * 2 ^ s - \<bar>m\<bar>\<bar> * 2 powi e" .
    also have "\<dots> * 2 \<le> real_of_int (2 ^ s) * 2 powi e"
    proof -
      have "\<bar>n * 2 ^ s - \<bar>m\<bar>\<bar> * 2 \<le> 2 ^ s"
        unfolding n_def by (rule round_half_even_nearest [OF s(1)])
      then have "real_of_int (\<bar>n * 2 ^ s - \<bar>m\<bar>\<bar> * 2) \<le> real_of_int (2 ^ s)"
        by (simp only: of_int_le_iff)
      then have "real_of_int (\<bar>n * 2 ^ s - \<bar>m\<bar>\<bar> * 2) * 2 powi e \<le> real_of_int (2 ^ s) * 2 powi e"
        by (intro mult_right_mono) simp_all
      then show ?thesis by (simp add: algebra_simps)
    qed
    also have "real_of_int (2 ^ s) * 2 powi e = 2 powi q"
      by (simp add: s(2) power_int_add)
    also have "\<dots> = 2 * 2 powi (q - 1)"
      by (simp add: power_int_diff)
    finally have "\<bar>valof (Finite m' e') - of_int m * 2 powi e\<bar> \<le> 2 powi (q - 1)"
      by simp
    with gt show ?thesis
      unfolding q_def [symmetric] by simp
  qed
qed

section \<open>Rounding is monotone\<close>

text \<open>
  Rounding to nearest does not cross a value of \<^verbatim>\<open>double\<close>: when \<open>y\<close> is such a value and
  \<open>y \<le> x\<close>, the rounded \<open>x\<close> is not below \<open>y\<close>, and likewise from above. The proof
  compares the significands at the quantum \<open>2 ^ q\<close> of the result; a \<open>y\<close> with a smaller
  quantum lies in a lower binade.
\<close>

lemma pow2_less_exp: "(2::real) powi a < 2 powi b \<Longrightarrow> a < b"
  using power_int_increasing [of b a "2::real"] by (cases "a < b") simp_all

lemma pow2_le_exp: "(2::real) powi a \<le> 2 powi b \<Longrightarrow> a \<le> b"
  using power_int_strict_increasing [of b a "2::real"] by (cases "a \<le> b") simp_all

lemma bitlen_real:
  assumes "0 < m"
  shows "2 powi (bitlen m - 1) \<le> real_of_int m" and "real_of_int m < 2 powi (bitlen m)"
proof -
  from bitlen_bounds [OF assms]
  have a: "2 ^ nat (bitlen m - 1) \<le> m" "m < 2 ^ nat (bitlen m)" "0 < bitlen m"
    by simp_all
  have "real_of_int (2 ^ nat (bitlen m - 1)) \<le> real_of_int m"
    using a(1) by (simp only: of_int_le_iff)
  then show "2 powi (bitlen m - 1) \<le> real_of_int m"
    using a(3) by (simp add: power_int_def)
  have "real_of_int m < real_of_int (2 ^ nat (bitlen m))"
    using a(2) by (simp only: of_int_less_iff)
  then show "real_of_int m < 2 powi (bitlen m)"
    using a(3) by (simp add: power_int_def)
qed

lemma bitlen_exp_le:
  assumes "0 < m" and "real_of_int m * 2 powi e < 2 powi k"
  shows "bitlen m + e \<le> k"
proof -
  have "2 powi (bitlen m - 1 + e) = 2 powi (bitlen m - 1) * (2::real) powi e"
    by (simp add: power_int_add)
  also have "\<dots> \<le> real_of_int m * 2 powi e"
    using bitlen_real(1) [OF assms(1)] by (intro mult_right_mono) simp_all
  finally have "(2::real) powi (bitlen m - 1 + e) < 2 powi k"
    using assms(2) by simp
  then show ?thesis
    using pow2_less_exp by fastforce
qed

lemma bitlen_exp_gt:
  assumes "0 < m" and "2 powi k \<le> real_of_int m * 2 powi e"
  shows "k < bitlen m + e"
proof -
  have "real_of_int m * 2 powi e < 2 powi (bitlen m) * 2 powi e"
    using bitlen_real(2) [OF assms(1)] by (intro mult_strict_right_mono) simp_all
  also have "\<dots> = 2 powi (bitlen m + e)"
    by (simp add: power_int_add)
  finally have "(2::real) powi k < 2 powi (bitlen m + e)"
    using assms(2) by simp
  then show ?thesis
    by (rule pow2_less_exp)
qed

lemma canon_neg: "canon (- m) e = dneg (canon m e)"
proof (induction m e rule: canon.induct)
  case (1 m e)
  show ?case
  proof (cases "m = 0")
    case True
    then show ?thesis by (simp add: canon.simps)
  next
    case False
    show ?thesis
    proof (cases "even m")
      case True
      have "canon (- m) e = canon ((- m) div 2) (e + 1)"
        using False True by (subst canon.simps) simp
      also have "(- m) div 2 = - (m div 2)"
        using True by (auto elim: evenE)
      also have "canon (- (m div 2)) (e + 1) = dneg (canon (m div 2) (e + 1))"
        using "1.IH" False True by simp
      also have "canon (m div 2) (e + 1) = canon m e"
        using False True by (subst (2) canon.simps) simp
      finally show ?thesis .
    next
      case odd: False
      then show ?thesis
        using False by (subst canon.simps, subst (2) canon.simps) simp
    qed
  qed
qed

lemma round_double_pos:
  assumes "0 < m"
  shows "round_double m e =
    (let q = max (bitlen m + e - 53) (- 1074);
         n = (if q \<le> e then m else round_half_even m (nat (q - e)));
         q' = max q e
     in if 1024 < bitlen n + q' then PosInf else canon n q')"
  using assms by (simp add: round_double_def round_fp_def Let_def)

lemma round_double_pos_q:
  assumes "0 < m" and "q = max (bitlen m + e - 53) (- 1074)"
  shows "q \<le> e \<Longrightarrow> round_double m e = (if 1024 < bitlen m + e then PosInf else canon m e)"
    and "\<not> q \<le> e \<Longrightarrow> round_double m e =
      (if 1024 < bitlen (round_half_even m (nat (q - e))) + q then PosInf
       else canon (round_half_even m (nat (q - e))) q)"
proof -
  have a: "max q e = e" if "q \<le> e"
    using that by simp
  have b: "max q e = q" if "\<not> q \<le> e"
    using that by simp
  show "round_double m e = (if 1024 < bitlen m + e then PosInf else canon m e)" if "q \<le> e"
    using that assms(1) a [OF that]
    by (simp add: round_double_pos [OF assms(1)] assms(2) [symmetric] Let_def del: max.absorb1 max.absorb2 max.absorb3 max.absorb4 max.bounded_iff)
  show "round_double m e =
      (if 1024 < bitlen (round_half_even m (nat (q - e))) + q then PosInf
       else canon (round_half_even m (nat (q - e))) q)" if "\<not> q \<le> e"
    using that assms(1) b [OF that]
    by (simp add: round_double_pos [OF assms(1)] assms(2) [symmetric] Let_def del: max.absorb1 max.absorb2 max.absorb3 max.absorb4 max.bounded_iff)
qed

lemma round_double_minus: "round_double (- m) e = dneg (round_double m e)"
proof -
  consider "m = 0" | "0 < m" | "m < 0"
    by linarith
  then show ?thesis
  proof cases
    case 1
    then show ?thesis by (simp add: round_double_def round_fp_def)
  next
    case 2
    then show ?thesis
      by (simp add: round_double_def round_fp_def Let_def canon_neg)
  next
    case 3
    then show ?thesis
      by (simp add: round_double_def round_fp_def Let_def canon_neg [symmetric])
  qed
qed


lemma rhe_bounds:
  assumes "0 < s"
  shows "m div 2 ^ s \<le> round_half_even m s"
    and "round_half_even m s \<le> m div 2 ^ s + 1"
    and "m mod 2 ^ s = 0 \<Longrightarrow> round_half_even m s = m div 2 ^ s"
proof -
  have h: "(0::int) < 2 ^ (s - 1)"
    by simp
  show "m div 2 ^ s \<le> round_half_even m s" "round_half_even m s \<le> m div 2 ^ s + 1"
    by (simp_all add: round_half_even_def Let_def)
  show "round_half_even m s = m div 2 ^ s" if "m mod 2 ^ s = 0"
    using that h by (simp add: round_half_even_def Let_def)
qed

text \<open>
  A value of the format with a quantum below \<open>2 ^ q\<close> is below \<open>2 ^ (q + 52)\<close>, and the
  significand at the quantum \<open>2 ^ q\<close> of a number that is rounded at its normal quantum
  is at least \<open>2 ^ 52\<close>.
\<close>

lemma dbl_below_binade:
  assumes "0 < my" and "bitlen my \<le> 53" and "ey < q"
  shows "real_of_int my * 2 powi ey < 2 powi (q + 52)"
proof -
  have "real_of_int my * 2 powi ey < 2 powi (bitlen my) * 2 powi ey"
    using bitlen_real(2) [OF assms(1)] by (intro mult_strict_right_mono) simp_all
  also have "\<dots> = 2 powi (bitlen my + ey)"
    by (simp add: power_int_add)
  also have "\<dots> \<le> 2 powi (q + 52)"
    using assms(2,3) by (intro power_int_increasing) simp_all
  finally show ?thesis .
qed

lemma le_div_int:
  assumes "0 < k" and "a * k \<le> (b::int)"
  shows "a \<le> b div k"
proof -
  have "(a * k) div k \<le> b div k"
    using assms(2,1) by (rule zdiv_mono1)
  with assms(1) show ?thesis by simp
qed

lemma div_less_int:
  assumes "0 < k" and "b < a * (k::int)"
  shows "b div k < a"
proof (rule ccontr)
  assume "\<not> b div k < a"
  then have "a * k \<le> (b div k) * k"
    using assms(1) by (intro mult_right_mono) simp_all
  moreover have "(b div k) * k + b mod k = b" "0 \<le> b mod k"
    using assms(1) by simp_all
  ultimately show False
    using assms(2) by linarith
qed

lemma quotient_ge_binade:
  assumes "0 < m" and "0 < s" and "int s = bitlen m - 53"
  shows "2 ^ 52 \<le> m div 2 ^ s"
proof -
  have "nat (bitlen m - 1) = 52 + s"
    using assms(3) by simp
  then have "(2::int) ^ 52 * 2 ^ s \<le> m"
    using bitlen_bounds [OF assms(1)] by (simp add: power_add)
  then show ?thesis
    by (intro le_div_int) simp_all
qed


lemma cmp_scaled:
  assumes "e \<le> q"
  shows "real_of_int m * 2 powi e \<le> real_of_int Y * 2 powi q \<longleftrightarrow> m \<le> Y * 2 ^ nat (q - e)"
    and "real_of_int Y * 2 powi q \<le> real_of_int m * 2 powi e \<longleftrightarrow> Y * 2 ^ nat (q - e) \<le> m"
proof -
  have pos: "(0::real) < 2 powi e" by simp
  have "real_of_int m * 2 powi e \<le> real_of_int Y * 2 powi q \<longleftrightarrow>
      real_of_int m * 2 powi e \<le> real_of_int (Y * 2 ^ nat (q - e)) * 2 powi e"
    by (simp only: scale_powi [OF assms])
  also have "\<dots> \<longleftrightarrow> real_of_int m \<le> real_of_int (Y * 2 ^ nat (q - e))"
    using pos by (simp only: mult_le_cancel_right_pos)
  also have "\<dots> \<longleftrightarrow> m \<le> Y * 2 ^ nat (q - e)"
    by (simp only: of_int_le_iff)
  finally show "real_of_int m * 2 powi e \<le> real_of_int Y * 2 powi q \<longleftrightarrow> m \<le> Y * 2 ^ nat (q - e)" .
  have "real_of_int Y * 2 powi q \<le> real_of_int m * 2 powi e \<longleftrightarrow>
      real_of_int (Y * 2 ^ nat (q - e)) * 2 powi e \<le> real_of_int m * 2 powi e"
    by (simp only: scale_powi [OF assms])
  also have "\<dots> \<longleftrightarrow> real_of_int (Y * 2 ^ nat (q - e)) \<le> real_of_int m"
    using pos by (simp only: mult_le_cancel_right_pos)
  also have "\<dots> \<longleftrightarrow> Y * 2 ^ nat (q - e) \<le> m"
    by (simp only: of_int_le_iff)
  finally show "real_of_int Y * 2 powi q \<le> real_of_int m * 2 powi e \<longleftrightarrow> Y * 2 ^ nat (q - e) \<le> m" .
qed

lemma round_pos_le:
  assumes m: "0 < m"
    and my: "0 < my" "bitlen my \<le> 53" "- 1074 \<le> ey" "bitlen my + ey \<le> 1024"
    and le: "real_of_int m * 2 powi e \<le> real_of_int my * 2 powi ey"
  shows "is_finite (round_double m e) \<and> valof (round_double m e) \<le> real_of_int my * 2 powi ey"
proof -
  define q where "q = max (bitlen m + e - 53) (- 1074)"
  have ylt: "real_of_int my * 2 powi ey < 2 powi 1024"
  proof -
    have "real_of_int my * 2 powi ey < 2 powi (bitlen my) * 2 powi ey"
      using bitlen_real(2) [OF my(1)] by (intro mult_strict_right_mono) simp_all
    also have "\<dots> = 2 powi (bitlen my + ey)"
      by (simp add: power_int_add)
    also have "\<dots> \<le> 2 powi 1024"
      using my(4) by (intro power_int_increasing) simp_all
    finally show ?thesis .
  qed
  show ?thesis
  proof (cases "q \<le> e")
    case True
    have "real_of_int m * 2 powi e < 2 powi 1024"
      using le ylt by simp
    then have "bitlen m + e \<le> 1024"
      by (rule bitlen_exp_le [OF m])
    then have "round_double m e = canon m e"
      using round_double_pos_q(1) [OF m q_def True] by simp
    then show ?thesis
      using le by (simp add: is_finite_canon valof_canon)
  next
    case False
    define s where "s = nat (q - e)"
    define d where "d = m div 2 ^ s"
    define n where "n = round_half_even m s"
    have s: "0 < s" "int s = q - e"
      using False by (simp_all add: s_def)
    have rd: "round_double m e = (if 1024 < bitlen n + q then PosInf else canon n q)"
      using round_double_pos_q(2) [OF m q_def False] by (simp add: n_def s_def)
    have qey: "q \<le> ey"
    proof (rule ccontr)
      assume "\<not> q \<le> ey"
      then have a: "ey < q" by simp
      then have qn: "q = bitlen m + e - 53"
        using my(3) by (simp add: q_def max_def split: if_splits)
      have "real_of_int my * 2 powi ey < 2 powi (q + 52)"
        by (rule dbl_below_binade [OF my(1,2) a])
      also have "q + 52 = (bitlen m - 1) + e"
        by (simp add: qn)
      also have "(2::real) powi (bitlen m - 1 + e) = 2 powi (bitlen m - 1) * 2 powi e"
        by (simp add: power_int_add)
      also have "\<dots> \<le> real_of_int m * 2 powi e"
        using bitlen_real(1) [OF m] by (intro mult_right_mono) simp_all
      finally show False using le by simp
    qed
    define Y where "Y = my * 2 ^ nat (ey - q)"
    have yY: "real_of_int Y * 2 powi q = real_of_int my * 2 powi ey"
      unfolding Y_def by (rule scale_powi [OF qey])
    have eq: "e \<le> q" using False by simp
    have mY: "m \<le> Y * 2 ^ s"
      using le cmp_scaled(1) [OF eq, of m Y] by (simp add: yY s_def)
    have dn: "d \<le> n" "n \<le> d + 1"
      using rhe_bounds(1,2) [OF s(1), of m] by (simp_all add: d_def n_def)
    have d0: "0 \<le> d"
      using m by (simp add: d_def pos_imp_zdiv_nonneg_iff)
    have nY: "n \<le> Y"
    proof (cases "m mod 2 ^ s = 0")
      case True
      then have "n = d"
        using rhe_bounds(3) [OF s(1), of m] by (simp add: d_def n_def)
      moreover have "d * 2 ^ s = m"
        using True div_mult_mod_eq [of m "2 ^ s"] by (simp only: d_def add_0_right)
      ultimately have "n * 2 ^ s \<le> Y * 2 ^ s"
        using mY by simp
      then show ?thesis by simp
    next
      case False
      have "m \<noteq> Y * 2 ^ s"
        using False by auto
      with mY have "m < Y * 2 ^ s" by simp
      then have "d < Y"
        unfolding d_def by (intro div_less_int) simp_all
      with dn(2) show ?thesis by simp
    qed
    have val: "real_of_int n * 2 powi q \<le> real_of_int my * 2 powi ey"
    proof -
      have "real_of_int n * 2 powi q \<le> real_of_int Y * 2 powi q"
        using nY by (intro mult_right_mono) simp_all
      then show ?thesis by (simp only: yY)
    qed
    have "bitlen n + q \<le> 1024"
    proof (cases "n = 0")
      case True
      have "0 < bitlen my"
        using bitlen_bounds [OF my(1)] by simp
      with True qey my(4) show ?thesis
        by (simp add: bitlen.simps)
    next
      case False
      with dn(1) d0 have "0 < n" by simp
      moreover have "real_of_int n * 2 powi q < 2 powi 1024"
        using val ylt by simp
      ultimately show ?thesis by (rule bitlen_exp_le)
    qed
    then show ?thesis
      using rd val by (simp add: is_finite_canon valof_canon)
  qed
qed

lemma round_pos_ge:
  assumes m: "0 < m"
    and my: "0 < my" "bitlen my \<le> 53" "- 1074 \<le> ey"
    and le: "real_of_int my * 2 powi ey \<le> real_of_int m * 2 powi e"
  shows "round_double m e = PosInf \<or>
    is_finite (round_double m e) \<and> real_of_int my * 2 powi ey \<le> valof (round_double m e)"
proof -
  define q where "q = max (bitlen m + e - 53) (- 1074)"
  show ?thesis
  proof (cases "q \<le> e")
    case True
    then have "round_double m e = (if 1024 < bitlen m + e then PosInf else canon m e)"
      by (rule round_double_pos_q(1) [OF m q_def])
    then show ?thesis
      using le by (simp add: is_finite_canon valof_canon)
  next
    case False
    define s where "s = nat (q - e)"
    define d where "d = m div 2 ^ s"
    define n where "n = round_half_even m s"
    have s: "0 < s" "int s = q - e"
      using False by (simp_all add: s_def)
    have rd: "round_double m e = (if 1024 < bitlen n + q then PosInf else canon n q)"
      using round_double_pos_q(2) [OF m q_def False] by (simp add: n_def s_def)
    have dn: "d \<le> n"
      using rhe_bounds(1) [OF s(1), of m] by (simp add: d_def n_def)
    have eq: "e \<le> q" using False by simp
    have val: "real_of_int my * 2 powi ey \<le> real_of_int n * 2 powi q"
    proof (cases "q \<le> ey")
      case True
      define Y where "Y = my * 2 ^ nat (ey - q)"
      have yY: "real_of_int Y * 2 powi q = real_of_int my * 2 powi ey"
        unfolding Y_def by (rule scale_powi [OF True])
      have "Y * 2 ^ s \<le> m"
        using le cmp_scaled(2) [OF eq, of Y m] by (simp add: yY s_def)
      then have "Y \<le> d"
        unfolding d_def by (intro le_div_int) simp_all
      with dn have "Y \<le> n" by simp
      then have "real_of_int Y * 2 powi q \<le> real_of_int n * 2 powi q"
        by (intro mult_right_mono) simp_all
      then show ?thesis by (simp only: yY)
    next
      case ey: False
      then have a: "ey < q" by simp
      then have qn: "q = bitlen m + e - 53"
        using my(3) by (simp add: q_def max_def split: if_splits)
      have "int s = bitlen m - 53"
        using s(2) qn by simp
      then have "2 ^ 52 \<le> d"
        unfolding d_def by (intro quotient_ge_binade m s(1))
      with dn have "2 ^ 52 \<le> n" by simp
      then have n52: "(2::real) ^ 52 \<le> real_of_int n"
        by (metis of_int_le_iff of_int_numeral of_int_power)
      have "real_of_int my * 2 powi ey < 2 powi (q + 52)"
        by (rule dbl_below_binade [OF my(1,2) a])
      also have "\<dots> = 2 ^ 52 * 2 powi q"
        by (simp add: power_int_add)
      also have "\<dots> \<le> real_of_int n * 2 powi q"
        using n52 by (intro mult_right_mono) simp_all
      finally show ?thesis by simp
    qed
    show ?thesis
      using rd val by (simp add: is_finite_canon valof_canon)
  qed
qed


lemma valof_dneg: "valof (dneg x) = - valof x"
  by (cases x) (simp_all add: valof_def)

lemma is_finite_dneg: "is_finite (dneg x) = is_finite x"
  by (cases x) (simp_all add: is_finite_def)

lemma is_double_special: "is_double PosInf" "is_double NegInf" "is_double NaN"
  by (simp_all add: is_double_def)

lemma is_double_zero: "is_double (Finite 0 0)"
  by (simp add: is_double_def canon.simps fits_double_def bitlen.simps)

lemma fits_double_minus: "fits_double (- m) e = fits_double m e"
  by (simp add: fits_double_def)

lemma is_double_dneg: "is_double (dneg x) = is_double x"
proof (cases x)
  case (Finite m e)
  then show ?thesis
    by (cases "canon m e") (simp_all add: is_double_def canon_neg fits_double_minus)
qed (simp_all add: is_double_def)

text \<open>A finite value of \<^verbatim>\<open>double\<close> is a number with a representation that fits.\<close>

lemma is_double_fits:
  assumes "is_double (Finite m e)"
  obtains m' e' where "fits_double m' e'"
    and "real_of_int m' * 2 powi e' = real_of_int m * 2 powi e"
proof (cases "canon m e")
  case (Finite m' e')
  with assms have "fits_double m' e'"
    by (simp add: is_double_def)
  moreover have "real_of_int m' * 2 powi e' = real_of_int m * 2 powi e"
    using valof_canon [of m e] Finite by (simp add: valof_def)
  ultimately show ?thesis by (rule that)
qed (insert assms, simp_all add: is_double_def)

lemma dle_same_value:
  assumes "valof (Finite a b) = valof (Finite c d)"
  shows "dle (Finite a b) r = dle (Finite c d) r" and "dle r (Finite a b) = dle r (Finite c d)"
  using assms by (cases r; simp add: dle_Finite)+

lemma dneg_dneg: "dneg (dneg x) = x"
  by (cases x) simp_all

lemma dle_dneg: "dle (dneg x) (dneg y) = dle y x"
  by (cases x; cases y) (simp_all add: dle_Finite valof_def)

lemma dle_between_finite:
  assumes "is_finite a" and "is_finite b" and "dle a r" and "dle r b"
  shows "is_finite r"
  using assms by (cases r; cases a; cases b) (simp_all add: is_finite_def)

lemma round_pos_nonneg:
  assumes m: "0 < m"
  shows "round_double m e = PosInf \<or> is_finite (round_double m e) \<and> 0 \<le> valof (round_double m e)"
proof -
  define q where "q = max (bitlen m + e - 53) (- 1074)"
  show ?thesis
  proof (cases "q \<le> e")
    case True
    show ?thesis
      using m by (simp add: round_double_pos_q(1) [OF m q_def True] is_finite_canon valof_canon)
  next
    case False
    then have s: "0 < nat (q - e)" by simp
    have "0 \<le> m div 2 ^ nat (q - e)"
      using m by (simp add: pos_imp_zdiv_nonneg_iff)
    then have "0 \<le> round_half_even m (nat (q - e))"
      using rhe_bounds(1) [OF s, of m] by simp
    then show ?thesis
      by (simp add: round_double_pos_q(2) [OF m q_def False] is_finite_canon valof_canon)
  qed
qed

text \<open>
  Rounding is monotone: it does not cross a value of the format.
\<close>

lemma round_double_ge:
  assumes y: "fits_double my ey"
    and le: "real_of_int my * 2 powi ey \<le> real_of_int m * 2 powi e"
  shows "dle (Finite my ey) (round_double m e)"
proof -
  have fin: "dle (Finite my ey) r" if "is_finite r" "real_of_int my * 2 powi ey \<le> valof r" for r
    using that by (simp add: dle_valof is_finite_def valof_def)
  have yb: "bitlen \<bar>my\<bar> \<le> 53" "- 1074 \<le> ey" "bitlen \<bar>my\<bar> + ey \<le> 1024"
    using y by (simp_all add: fits_double_def)
  consider "m = 0" | "0 < m" "my \<le> 0" | "0 < m" "0 < my" | "m < 0"
    by linarith
  then show ?thesis
  proof cases
    case 1
    then have "round_double m e = Finite 0 0"
      by (simp add: round_double_def round_fp_def)
    with 1 le show ?thesis
      by (simp add: dle_Finite valof_def)
  next
    case 2
    have "real_of_int my * 2 powi ey \<le> 0"
      using 2(2) by (simp add: mult_le_0_iff)
    with round_pos_nonneg [OF 2(1), of e] show ?thesis
      by (auto intro: fin)
  next
    case 3
    from round_pos_ge [OF 3(1) 3(2) _ yb(2) le] yb(1) 3(2) show ?thesis
      by (auto intro: fin)
  next
    case 4
    then have "real_of_int m * 2 powi e < 0"
      by (simp add: mult_less_0_iff)
    with le have "real_of_int my * 2 powi ey < 0"
      by simp
    moreover have "(0::real) < 2 powi ey"
      by simp
    ultimately have my: "my < 0"
      by (auto simp add: mult_less_0_iff)
    have le': "real_of_int (- m) * 2 powi e \<le> real_of_int (- my) * 2 powi ey"
      using le by simp
    have "is_finite (round_double (- m) e) \<and>
        valof (round_double (- m) e) \<le> real_of_int (- my) * 2 powi ey"
      using 4 my yb by (intro round_pos_le le') simp_all
    then have "is_finite (dneg (round_double (- m) e))"
      "real_of_int my * 2 powi ey \<le> valof (dneg (round_double (- m) e))"
      by (simp_all add: is_finite_dneg valof_dneg)
    then have "dle (Finite my ey) (dneg (round_double (- m) e))"
      by (rule fin)
    then show ?thesis
      by (simp add: round_double_minus dneg_dneg)
  qed
qed

lemma round_double_le:
  assumes y: "fits_double my ey"
    and le: "real_of_int m * 2 powi e \<le> real_of_int my * 2 powi ey"
  shows "dle (round_double m e) (Finite my ey)"
proof -
  have "fits_double (- my) ey"
    using y by (simp add: fits_double_minus)
  moreover have "real_of_int (- my) * 2 powi ey \<le> real_of_int (- m) * 2 powi e"
    using le by simp
  ultimately have "dle (Finite (- my) ey) (round_double (- m) e)"
    by (rule round_double_ge)
  then have "dle (dneg (Finite my ey)) (dneg (round_double m e))"
    by (simp add: round_double_minus)
  then show ?thesis
    by (simp only: dle_dneg)
qed

text \<open>The sum of two finite values is the rounded sum of the two numbers.\<close>

lemma dadd_Finite_round:
  "\<exists>M E. dadd (Finite m1 e1) (Finite m2 e2) = round_double M E \<and>
     real_of_int M * 2 powi E = valof (Finite m1 e1) + valof (Finite m2 e2)"
proof -
  define e where "e = min e1 e2"
  define m where "m = m1 * 2 ^ nat (e1 - e) + m2 * 2 ^ nat (e2 - e)"
  have le: "e \<le> e1" "e \<le> e2"
    by (simp_all add: e_def)
  have "real_of_int m * 2 powi e =
      real_of_int (m1 * 2 ^ nat (e1 - e)) * 2 powi e + real_of_int (m2 * 2 ^ nat (e2 - e)) * 2 powi e"
    by (simp only: m_def of_int_add distrib_right)
  also have "\<dots> = real_of_int m1 * 2 powi e1 + real_of_int m2 * 2 powi e2"
    by (simp only: scale_powi [OF le(1)] scale_powi [OF le(2)])
  finally have "real_of_int m * 2 powi e = valof (Finite m1 e1) + valof (Finite m2 e2)"
    by (simp add: valof_def)
  moreover have "dadd (Finite m1 e1) (Finite m2 e2) = round_double m e"
    by (simp add: dadd.simps(1) Let_def m_def e_def)
  ultimately show ?thesis by blast
qed

lemma dadd_ge:
  assumes "is_finite x" and "is_finite y" and "is_finite z" and "is_double z"
    and "valof z \<le> valof x + valof y"
  shows "dle z (dadd x y)"
proof -
  from assms(1,2,3) obtain m1 e1 m2 e2 m3 e3
    where x: "x = Finite m1 e1" and y: "y = Finite m2 e2" and z: "z = Finite m3 e3"
    by (elim is_finiteE) blast
  from dadd_Finite_round [of m1 e1 m2 e2] obtain M E
    where d: "dadd x y = round_double M E" "real_of_int M * 2 powi E = valof x + valof y"
    by (auto simp add: x y)
  from assms(4) obtain m' e' where f: "fits_double m' e'"
    and eq: "real_of_int m' * 2 powi e' = real_of_int m3 * 2 powi e3"
    unfolding z by (rule is_double_fits)
  have "real_of_int m' * 2 powi e' \<le> real_of_int M * 2 powi E"
    using assms(5) d(2) eq by (simp add: z valof_def)
  with f have "dle (Finite m' e') (round_double M E)"
    by (rule round_double_ge)
  moreover have "valof (Finite m' e') = valof (Finite m3 e3)"
    using eq by (simp add: valof_def)
  ultimately show ?thesis
    unfolding d(1) z using dle_same_value(1) by blast
qed

lemma dadd_le:
  assumes "is_finite x" and "is_finite y" and "is_finite z" and "is_double z"
    and "valof x + valof y \<le> valof z"
  shows "dle (dadd x y) z"
proof -
  from assms(1,2,3) obtain m1 e1 m2 e2 m3 e3
    where x: "x = Finite m1 e1" and y: "y = Finite m2 e2" and z: "z = Finite m3 e3"
    by (elim is_finiteE) blast
  from dadd_Finite_round [of m1 e1 m2 e2] obtain M E
    where d: "dadd x y = round_double M E" "real_of_int M * 2 powi E = valof x + valof y"
    by (auto simp add: x y)
  from assms(4) obtain m' e' where f: "fits_double m' e'"
    and eq: "real_of_int m' * 2 powi e' = real_of_int m3 * 2 powi e3"
    unfolding z by (rule is_double_fits)
  have "real_of_int M * 2 powi E \<le> real_of_int m' * 2 powi e'"
    using assms(5) d(2) eq by (simp add: z valof_def)
  with f have "dle (round_double M E) (Finite m' e')"
    by (rule round_double_le)
  moreover have "valof (Finite m' e') = valof (Finite m3 e3)"
    using eq by (simp add: valof_def)
  ultimately show ?thesis
    unfolding d(1) z using dle_same_value(2) by blast
qed

lemma dsub_ge:
  assumes "is_finite x" and "is_finite y" and "is_finite z" and "is_double z"
    and "valof z \<le> valof x - valof y"
  shows "dle z (dsub x y)"
  unfolding dsub_def using assms by (intro dadd_ge) (simp_all add: is_finite_dneg valof_dneg)

lemma dsub_le:
  assumes "is_finite x" and "is_finite y" and "is_finite z" and "is_double z"
    and "valof x - valof y \<le> valof z"
  shows "dle (dsub x y) z"
  unfolding dsub_def using assms by (intro dadd_le) (simp_all add: is_finite_dneg valof_dneg)


text \<open>Every result of rounding is a value of \<^verbatim>\<open>double\<close>.\<close>

lemma canon_pos_shape:
  "0 < n \<Longrightarrow> \<exists>m' e'. canon n q = Finite m' e' \<and> 0 < m' \<and> odd m' \<and> q \<le> e' \<and>
     bitlen m' + e' = bitlen n + q"
proof (induction n q rule: canon.induct)
  case (1 m e)
  show ?case
  proof (cases "even m")
    case True
    with "1.prems" have pos: "0 < m div 2"
      by (auto elim: evenE)
    have c: "canon m e = canon (m div 2) (e + 1)"
      using "1.prems" True by (subst canon.simps) simp
    have b: "bitlen m = 1 + bitlen (m div 2)"
      using "1.prems" by (subst bitlen.simps) simp
    from "1.IH" [OF _ True pos] "1.prems" obtain m' e'
      where "canon (m div 2) (e + 1) = Finite m' e'" "0 < m'" "odd m'" "e + 1 \<le> e'"
        "bitlen m' + e' = bitlen (m div 2) + (e + 1)"
      by auto
    with c b show ?thesis by simp
  next
    case False
    with "1.prems" show ?thesis
      by (subst canon.simps) simp
  qed
qed

lemma canon_is_double:
  assumes "0 \<le> n" and "bitlen n \<le> 53" and "- 1074 \<le> q" and "bitlen n + q \<le> 1024"
  shows "is_double (canon n q)"
proof (cases "n = 0")
  case True
  then show ?thesis
    by (simp add: canon.simps is_double_zero)
next
  case False
  with assms(1) have "0 < n" by simp
  from canon_pos_shape [OF this, of q] obtain m' e'
    where c: "canon n q = Finite m' e'" "0 < m'" "odd m'" "q \<le> e'"
      "bitlen m' + e' = bitlen n + q"
    by blast
  have "canon m' e' = Finite m' e'"
    using c(2,3) by (subst canon.simps) auto
  with c assms show ?thesis
    by (simp add: is_double_def fits_double_def)
qed

lemma canon_is_double_carry:
  assumes "- 1074 \<le> q" and "54 + q \<le> 1024"
  shows "is_double (canon (2 ^ 53) q)"
proof -
  have b: "bitlen 4503599627370496 = 53"
    by code_simp
  have "canon (2 ^ 53) q = canon 4503599627370496 (q + 1)"
    by (subst canon.simps) simp
  moreover have "is_double (canon 4503599627370496 (q + 1))"
    using assms by (intro canon_is_double) (simp_all add: b)
  ultimately show ?thesis by simp
qed

lemma round_double_is_double_pos:
  assumes m: "0 < m"
  shows "is_double (round_double m e)"
proof -
  define q where "q = max (bitlen m + e - 53) (- 1074)"
  have q: "bitlen m + e - 53 \<le> q" "- 1074 \<le> q"
    by (simp_all add: q_def)
  show ?thesis
  proof (cases "q \<le> e")
    case True
    have "is_double (canon m e)" if "\<not> 1024 < bitlen m + e"
      using that m q True by (intro canon_is_double) simp_all
    then show ?thesis
      by (simp add: round_double_pos_q(1) [OF m q_def True] is_double_special)
  next
    case False
    define s where "s = nat (q - e)"
    define n where "n = round_half_even m s"
    have s: "0 < s" "int s = q - e"
      using False by (simp_all add: s_def)
    have rd: "round_double m e = (if 1024 < bitlen n + q then PosInf else canon n q)"
      using round_double_pos_q(2) [OF m q_def False] by (simp add: n_def s_def)
    have "nat (bitlen m) \<le> 53 + s"
      using q(1) s(2) by simp
    then have "(2::int) ^ nat (bitlen m) \<le> 2 ^ (53 + s)"
      by (intro power_increasing) simp_all
    with bitlen_bounds [OF m] have "m < 2 ^ 53 * 2 ^ s"
      by (simp add: power_add)
    then have "m div 2 ^ s < 2 ^ 53"
      by (intro div_less_int) simp_all
    moreover have "0 \<le> m div 2 ^ s"
      using m by (simp add: pos_imp_zdiv_nonneg_iff)
    ultimately have n: "0 \<le> n" "n \<le> 2 ^ 53"
      using rhe_bounds(1,2) [OF s(1), of m] by (simp_all add: n_def)
    have "is_double (canon n q)" if ov: "\<not> 1024 < bitlen n + q"
    proof (cases "n = 2 ^ 53")
      case True
      have "bitlen 9007199254740992 = 54"
        by code_simp
      with ov True have "54 + q \<le> 1024" by simp
      with q(2) show ?thesis
        unfolding True by (intro canon_is_double_carry)
    next
      case False
      with n(2) have "n < 2 ^ nat 53" by simp
      then have "bitlen n \<le> 53"
        by (intro bitlen_le) simp_all
      with n(1) q(2) ov show ?thesis
        by (intro canon_is_double) simp_all
    qed
    then show ?thesis
      by (simp add: rd is_double_special)
  qed
qed

lemma round_double_is_double: "is_double (round_double m e)"
proof -
  consider "m = 0" | "0 < m" | "m < 0"
    by linarith
  then show ?thesis
  proof cases
    case 1
    then show ?thesis
      by (simp add: round_double_def round_fp_def is_double_zero)
  next
    case 2
    then show ?thesis by (rule round_double_is_double_pos)
  next
    case 3
    then have "is_double (round_double (- m) e)"
      by (intro round_double_is_double_pos) simp
    then show ?thesis
      by (simp add: round_double_minus is_double_dneg)
  qed
qed

lemma dadd_is_double: "is_double (dadd x y)"
  by (cases x; cases y) (simp_all add: dadd.simps(1) Let_def round_double_is_double is_double_special)

lemma dsub_is_double: "is_double (dsub x y)"
  by (simp add: dsub_def dadd_is_double)

lemma dmul_is_double: "is_double (dmul x y)"
  by (cases x; cases y) (simp_all add: dmul.simps(1) round_double_is_double is_double_special)

text \<open>Rounding leaves a value of \<^verbatim>\<open>double\<close> as it is.\<close>

lemma round_double_fixes:
  assumes "is_double (Finite m e)"
  shows "is_finite (round_double m e) \<and> valof (round_double m e) = of_int m * 2 powi e"
proof -
  from assms obtain m' e' where f: "fits_double m' e'"
    and eq: "real_of_int m' * 2 powi e' = real_of_int m * 2 powi e"
    by (rule is_double_fits)
  have lo: "dle (Finite m' e') (round_double m e)"
    using f by (rule round_double_ge) (simp add: eq)
  have hi: "dle (round_double m e) (Finite m' e')"
    using f by (rule round_double_le) (simp add: eq)
  have fin: "is_finite (round_double m e)"
    using _ _ lo hi by (rule dle_between_finite) (simp_all add: is_finite_def)
  with lo hi have "valof (round_double m e) = valof (Finite m' e')"
    by (simp add: dle_valof is_finite_def)
  with fin eq show ?thesis
    by (simp add: valof_def)
qed

text \<open>
  And only a value of \<^verbatim>\<open>double\<close>: two representations of one number have the same
  unique representation, and every result of rounding is a value of \<^verbatim>\<open>double\<close>.
\<close>

lemma canon_shift: "canon (m * 2 ^ k) e = canon m (e + int k)"
proof (induction k arbitrary: e)
  case 0
  show ?case by simp
next
  case (Suc k)
  show ?case
  proof (cases "m = 0")
    case True
    then show ?thesis by (simp add: canon.simps)
  next
    case False
    have "canon (m * 2 ^ Suc k) e = canon ((m * 2 ^ Suc k) div 2) (e + 1)"
      using False by (subst canon.simps) simp
    also have "(m * 2 ^ Suc k) div 2 = m * 2 ^ k"
      by simp
    also have "canon (m * 2 ^ k) (e + 1) = canon m (e + 1 + int k)"
      by (rule Suc.IH)
    also have "e + 1 + int k = e + int (Suc k)"
      by simp
    finally show ?thesis .
  qed
qed

lemma canon_unique:
  assumes "real_of_int m1 * 2 powi e1 = real_of_int m2 * 2 powi e2"
  shows "canon m1 e1 = canon m2 e2"
proof -
  have main: "canon a ea = canon b eb"
    if "ea \<le> eb" "real_of_int a * 2 powi ea = real_of_int b * 2 powi eb" for a b ea eb
  proof -
    have "real_of_int (b * 2 ^ nat (eb - ea)) * 2 powi ea = real_of_int b * 2 powi eb"
      by (rule scale_powi [OF that(1)])
    then have "real_of_int a * 2 powi ea = real_of_int (b * 2 ^ nat (eb - ea)) * 2 powi ea"
      by (simp only: that(2))
    then have "real_of_int a = real_of_int (b * 2 ^ nat (eb - ea))"
      by (simp only: mult_cancel_right) simp
    then have "a = b * 2 ^ nat (eb - ea)"
      by (simp only: of_int_eq_iff)
    then have "canon a ea = canon b (ea + int (nat (eb - ea)))"
      by (simp only: canon_shift)
    with that(1) show ?thesis by simp
  qed
  show ?thesis
  proof (cases "e1 \<le> e2")
    case True
    then show ?thesis using assms by (rule main)
  next
    case False
    then have "e2 \<le> e1" by simp
    then have "canon m2 e2 = canon m1 e1"
      using assms [symmetric] by (rule main)
    then show ?thesis by simp
  qed
qed

lemma is_double_fixed:
  "is_double (Finite m e) \<longleftrightarrow>
     is_finite (round_double m e) \<and> valof (round_double m e) = valof (Finite m e)"
proof
  assume "is_double (Finite m e)"
  then show "is_finite (round_double m e) \<and> valof (round_double m e) = valof (Finite m e)"
    using round_double_fixes [of m e] by (simp add: valof_def)
next
  assume a: "is_finite (round_double m e) \<and> valof (round_double m e) = valof (Finite m e)"
  then obtain m' e' where r: "round_double m e = Finite m' e'"
    by (auto elim: is_finiteE)
  have d: "is_double (Finite m' e')"
    using round_double_is_double [of m e] by (simp add: r)
  have "real_of_int m' * 2 powi e' = real_of_int m * 2 powi e"
    using a by (simp add: r valof_def)
  then have "canon m' e' = canon m e"
    by (rule canon_unique)
  with d show "is_double (Finite m e)"
    by (simp add: is_double_def)
qed

text \<open>
  The methods keep the balance a value of \<^verbatim>\<open>double\<close>, and the constructors start with
  one.
\<close>

lemma operations_keep_double:
  "is_double (balance_m (Account ident name))"
  "is_double (balance_m this) \<Longrightarrow> is_double (balance_m (deposit amount this))"
  "is_double (balance_m this) \<Longrightarrow> is_double (balance_m (withdraw amount this))"
  "is_double (balance_m c) \<Longrightarrow> is_double (balance_m (CheckingAccount_withdraw amount c))"
  "is_double (balance_m (applyInterest s))"
proof -
  show "is_double (balance_m (Account ident name))"
    by (simp add: Account_def dzero_def is_double_zero)
  show "is_double (balance_m this) \<Longrightarrow> is_double (balance_m (deposit amount this))"
    by (simp add: deposit_def dadd_is_double)
  show "is_double (balance_m this) \<Longrightarrow> is_double (balance_m (withdraw amount this))"
    by (simp add: withdraw_def dsub_is_double)
  show "is_double (balance_m c) \<Longrightarrow> is_double (balance_m (CheckingAccount_withdraw amount c))"
    by (simp add: CheckingAccount_withdraw_def dsub_is_double)
  show "is_double (balance_m (applyInterest s))"
    by (simp add: applyInterest_def dadd_is_double)
qed

section \<open>The operations of the C++ accounts\<close>

text \<open>
  The amounts below are written as values \<open>Finite m e\<close>: \<open>Finite 125 3\<close> is 1000.0,
  \<open>Finite 125 2\<close> is 500.0, \<open>Finite 25 5\<close> is 800.0, \<open>Finite 75 3\<close> is 600.0,
  \<open>Finite 75 2\<close> is 300.0, \<open>Finite 75 4\<close> is 1200.0, \<open>Finite 1 (- 2)\<close> is 0.25 and
  \<open>Finite 1 53\<close> is 9007199254740992.0. The values of \<^verbatim>\<open>double\<close> nearest to 0.05, 0.1,
  0.2 and 0.3 are \<open>Finite 3602879701896397 (- 56)\<close>, \<open>Finite 3602879701896397 (- 55)\<close>,
  \<open>Finite 3602879701896397 (- 54)\<close> and \<open>Finite 5404319552844595 (- 54)\<close>;
  \<open>Finite 1351079888211149 (- 52)\<close> is 0.30000000000000004, the next one above 0.3.
\<close>

text \<open>
  The run of \<^verbatim>\<open>main\<close>: the savings account ends with 1050.0 and the checking account
  with 500.0.
\<close>

lemma main_scenario:
  "balance_m (applyInterest (deposit (Finite 125 3)
      (SavingsAccount 1 ''Alice Smith'' (Finite 3602879701896397 (- 56))))) = Finite 525 1 \<and>
   balance_m (deposit (Finite 125 2) (CheckingAccount 2 ''Bob Jones'' (Finite 125 2))) = Finite 125 2"
  by code_simp

text \<open>
  C3, as the code has it. \<^verbatim>\<open>Account::deposit\<close> with an amount greater than zero
  replaces the balance by the \<^verbatim>\<open>double\<close> sum of balance and amount, that is their sum
  rounded to the nearest \<^verbatim>\<open>double\<close>; the balance grows by exactly the amount whenever
  that sum is exact. With any other amount (zero, negative, NaN) the account is
  returned as it was. The method returns the account and nothing else: no error is
  signalled. For a finite amount the test \<^verbatim>\<open>amount > 0\<close> is the comparison of the
  real numbers. The statement holds for every class derived from \<^verbatim>\<open>Account\<close>.
\<close>

theorem deposit_rounded_sum:
  "(dgt amount dzero \<longrightarrow> deposit amount this = this\<lparr>balance_m := dadd (balance_m this) amount\<rparr>) \<and>
   (\<not> dgt amount dzero \<longrightarrow> deposit amount this = this) \<and>
   (is_finite amount \<longrightarrow> dgt amount dzero = (0 < valof amount)) \<and>
   \<not> dgt NaN dzero \<and> \<not> dgt NegInf dzero \<and> dgt PosInf dzero \<and>
   (dgt amount dzero \<and> exact_add (balance_m this) amount \<longrightarrow>
      valof (balance_m (deposit amount this)) = valof (balance_m this) + valof amount)"
  by (simp add: deposit_def dgt_zero_valof exact_add_def) (simp add: dgt_def dzero_def)

text \<open>
  Deposits of 500.0 and of -5.0 into a savings account that holds 1000.0: the first
  leaves 1500.0, the second changes nothing. A deposit of 0.2 into a checking account
  that holds 0.1 leaves 0.30000000000000004, the rounded sum.
\<close>

theorem deposit_rounded_sum_witness:
  "balance_m (deposit (Finite 125 3) (SavingsAccount 1 ''Alice Smith'' (Finite 1 (- 2)))) = Finite 125 3 \<and>
   is_finite (Finite 125 2) \<and> dgt (Finite 125 2) dzero \<and>
   exact_add (balance_m (deposit (Finite 125 3) (SavingsAccount 1 ''Alice Smith'' (Finite 1 (- 2)))))
     (Finite 125 2) \<and>
   valof (balance_m (deposit (Finite 125 2)
      (deposit (Finite 125 3) (SavingsAccount 1 ''Alice Smith'' (Finite 1 (- 2)))))) = 1500 \<and>
   is_finite (Finite (- 5) 0) \<and> \<not> dgt (Finite (- 5) 0) dzero \<and>
   deposit (Finite (- 5) 0) (deposit (Finite 125 3) (SavingsAccount 1 ''Alice Smith'' (Finite 1 (- 2))))
     = deposit (Finite 125 3) (SavingsAccount 1 ''Alice Smith'' (Finite 1 (- 2))) \<and>
   balance_m (deposit (Finite 3602879701896397 (- 55)) (CheckingAccount 2 ''Bob Jones'' (Finite 125 2)))
     = Finite 3602879701896397 (- 55) \<and>
   dgt (Finite 3602879701896397 (- 54)) dzero \<and>
   balance_m (deposit (Finite 3602879701896397 (- 54))
      (deposit (Finite 3602879701896397 (- 55)) (CheckingAccount 2 ''Bob Jones'' (Finite 125 2))))
     = Finite 1351079888211149 (- 52)"
proof -
  let ?acc = "deposit (Finite 125 3) (SavingsAccount 1 ''Alice Smith'' (Finite 1 (- 2)))"
  let ?chk = "deposit (Finite 3602879701896397 (- 55)) (CheckingAccount 2 ''Bob Jones'' (Finite 125 2))"
  have b: "balance_m ?acc = Finite 125 3" "balance_m ?chk = Finite 3602879701896397 (- 55)"
    by code_simp+
  have s: "dadd (Finite 125 3) (Finite 125 2) = Finite 375 2"
    "dadd (Finite 3602879701896397 (- 55)) (Finite 3602879701896397 (- 54)) = Finite 1351079888211149 (- 52)"
    by code_simp+
  have g: "dgt (Finite 125 2) dzero" "\<not> dgt (Finite (- 5) 0) dzero"
    "dgt (Finite 3602879701896397 (- 54)) dzero"
    by code_simp+
  have x: "exact_add (balance_m ?acc) (Finite 125 2)"
    by (simp add: exact_add_def b s is_finite_def valof_def)
  have v: "valof (balance_m (deposit (Finite 125 2) ?acc)) = valof (balance_m ?acc) + valof (Finite 125 2)"
    using deposit_rounded_sum [of "Finite 125 2" ?acc] g(1) x by blast
  have n: "deposit (Finite (- 5) 0) ?acc = ?acc"
    using deposit_rounded_sum [of "Finite (- 5) 0" ?acc] g(2) by blast
  have "deposit (Finite 3602879701896397 (- 54)) ?chk =
      ?chk\<lparr>balance_m := dadd (balance_m ?chk) (Finite 3602879701896397 (- 54))\<rparr>"
    using deposit_rounded_sum [of "Finite 3602879701896397 (- 54)" ?chk] g(3) by blast
  then have r: "balance_m (deposit (Finite 3602879701896397 (- 54)) ?chk) = Finite 1351079888211149 (- 52)"
    by (simp add: b s)
  have "valof (balance_m (deposit (Finite 125 2) ?acc)) = 1500"
    unfolding v b by (simp add: valof_def)
  with b x n r g show ?thesis
    by (simp add: is_finite_def)
qed

text \<open>
  A deposit of 1.0 into an account that holds 9007199254740992.0: the amount is
  positive and the balance stays what it was, since 9007199254740993 is not a
  \<^verbatim>\<open>double\<close>.
\<close>

theorem deposit_exactly_counterexample:
  "dgt (Finite 1 0) dzero \<and>
   balance_m (deposit (Finite 1 53) (CheckingAccount 2 ''Bob Jones'' (Finite 125 2))) = Finite 1 53 \<and>
   balance_m (deposit (Finite 1 0) (deposit (Finite 1 53) (CheckingAccount 2 ''Bob Jones'' (Finite 125 2))))
     = Finite 1 53"
  by code_simp

text \<open>
  C2, as the code has it. \<^verbatim>\<open>Account::withdraw\<close>, which a SavingsAccount inherits,
  replaces the balance by the \<^verbatim>\<open>double\<close> difference of balance and amount when
  \<^verbatim>\<open>amount > 0 && balance_ >= amount\<close>, and returns the account as it was in every
  other case. For finite values the test is \<open>0 < amount \<le> balance\<close> on the real
  numbers, and the balance falls by exactly the amount whenever the difference is
  exact.
\<close>

theorem withdraw_rounded_difference:
  "(dgt amount dzero \<and> dge (balance_m this) amount \<longrightarrow>
      withdraw amount this = this\<lparr>balance_m := dsub (balance_m this) amount\<rparr>) \<and>
   (\<not> (dgt amount dzero \<and> dge (balance_m this) amount) \<longrightarrow> withdraw amount this = this) \<and>
   (is_finite amount \<and> is_finite (balance_m this) \<longrightarrow>
      (dgt amount dzero \<and> dge (balance_m this) amount) =
      (0 < valof amount \<and> valof amount \<le> valof (balance_m this))) \<and>
   \<not> dgt NaN dzero \<and> \<not> dge NaN amount \<and> \<not> dge (balance_m this) NaN \<and>
   (dgt amount dzero \<and> dge (balance_m this) amount \<and> exact_sub (balance_m this) amount \<longrightarrow>
      valof (balance_m (withdraw amount this)) = valof (balance_m this) - valof amount)"
  by (simp add: withdraw_def dgt_zero_valof dge_valof exact_sub_def)
    (simp add: dgt_def dge_def dlt_NaN(1) dle_NaN(1))

text \<open>Withdrawals of 300.0, of 2000.0 and of -5.0 from a savings account that holds 1000.0.\<close>

theorem withdraw_rounded_difference_witness:
  "is_finite (Finite 75 2) \<and>
   is_finite (balance_m (deposit (Finite 125 3) (SavingsAccount 1 ''Alice Smith'' (Finite 1 (- 2))))) \<and>
   dgt (Finite 75 2) dzero \<and>
   dge (balance_m (deposit (Finite 125 3) (SavingsAccount 1 ''Alice Smith'' (Finite 1 (- 2))))) (Finite 75 2) \<and>
   exact_sub (balance_m (deposit (Finite 125 3) (SavingsAccount 1 ''Alice Smith'' (Finite 1 (- 2))))) (Finite 75 2) \<and>
   valof (balance_m (withdraw (Finite 75 2)
      (deposit (Finite 125 3) (SavingsAccount 1 ''Alice Smith'' (Finite 1 (- 2)))))) = 700 \<and>
   withdraw (Finite 125 4) (deposit (Finite 125 3) (SavingsAccount 1 ''Alice Smith'' (Finite 1 (- 2))))
     = deposit (Finite 125 3) (SavingsAccount 1 ''Alice Smith'' (Finite 1 (- 2))) \<and>
   withdraw (Finite (- 5) 0) (deposit (Finite 125 3) (SavingsAccount 1 ''Alice Smith'' (Finite 1 (- 2))))
     = deposit (Finite 125 3) (SavingsAccount 1 ''Alice Smith'' (Finite 1 (- 2)))"
proof -
  let ?acc = "deposit (Finite 125 3) (SavingsAccount 1 ''Alice Smith'' (Finite 1 (- 2)))"
  have b: "balance_m ?acc = Finite 125 3"
    by code_simp
  have d: "dsub (Finite 125 3) (Finite 75 2) = Finite 175 2"
    by code_simp
  have x: "exact_sub (balance_m ?acc) (Finite 75 2)"
    by (simp add: exact_sub_def b d is_finite_def valof_def)
  have g: "dgt (Finite 75 2) dzero" "dge (Finite 125 3) (Finite 75 2)"
    by code_simp+
  show ?thesis
    using withdraw_rounded_difference [of "Finite 75 2" ?acc]
      withdraw_rounded_difference [of "Finite 125 4" ?acc]
      withdraw_rounded_difference [of "Finite (- 5) 0" ?acc] x g
    by (simp add: is_finite_def valof_def b d)
qed

text \<open>
  A withdrawal of 1.0 from a savings account that holds \<open>2 ^ 54\<close>: the test holds and the
  balance stays \<open>2 ^ 54\<close>.
\<close>

theorem withdraw_exactly_counterexample:
  "dgt (Finite 1 0) dzero \<and>
   dge (balance_m (deposit (Finite 1 54) (SavingsAccount 1 ''Alice Smith'' (Finite 1 (- 2))))) (Finite 1 0) \<and>
   balance_m (deposit (Finite 1 54) (SavingsAccount 1 ''Alice Smith'' (Finite 1 (- 2)))) = Finite 1 54 \<and>
   balance_m (withdraw (Finite 1 0)
      (deposit (Finite 1 54) (SavingsAccount 1 ''Alice Smith'' (Finite 1 (- 2))))) = Finite 1 54"
  by code_simp




text \<open>
  C4, as the code has it. \<^verbatim>\<open>SavingsAccount::applyInterest\<close> has no test: it replaces
  the balance \<open>B\<close> by the \<^verbatim>\<open>double\<close> sum of \<open>B\<close> and the \<^verbatim>\<open>double\<close> product of \<open>B\<close> and the
  rate \<open>r\<close>. When the product and the sum are exact, the new balance is
  \<open>B * (1 + r)\<close>; a second call does the same to the new balance, which gives
  \<open>B * (1 + r)\<^sup>2\<close> when its product and sum are exact too.
\<close>

theorem applyInterest_rounded:
  "applyInterest this =
     this\<lparr>balance_m := dadd (balance_m this) (dmul (balance_m this) (interestRate_m this))\<rparr> \<and>
   (exact_mul (balance_m this) (interestRate_m this) \<and>
    exact_add (balance_m this) (dmul (balance_m this) (interestRate_m this)) \<longrightarrow>
      valof (balance_m (applyInterest this)) = valof (balance_m this) * (1 + valof (interestRate_m this))) \<and>
   (exact_mul (balance_m this) (interestRate_m this) \<and>
    exact_add (balance_m this) (dmul (balance_m this) (interestRate_m this)) \<and>
    exact_mul (balance_m (applyInterest this)) (interestRate_m this) \<and>
    exact_add (balance_m (applyInterest this))
      (dmul (balance_m (applyInterest this)) (interestRate_m this)) \<longrightarrow>
      valof (balance_m (applyInterest (applyInterest this))) =
      valof (balance_m this) * (1 + valof (interestRate_m this)) ^ 2)"
proof -
  have once: "valof (balance_m (applyInterest acc)) = valof (balance_m acc) * (1 + valof (interestRate_m acc))"
    if "exact_mul (balance_m acc) (interestRate_m acc)"
      "exact_add (balance_m acc) (dmul (balance_m acc) (interestRate_m acc))"
    for acc :: "'a savings_account_scheme"
    using that by (simp add: applyInterest_def exact_mul_def exact_add_def algebra_simps)
  have rate: "interestRate_m (applyInterest this) = interestRate_m this"
    by (simp add: applyInterest_def)
  have twice: "valof (balance_m (applyInterest (applyInterest this))) =
      valof (balance_m this) * (1 + valof (interestRate_m this)) ^ 2"
    if "exact_mul (balance_m this) (interestRate_m this)"
      "exact_add (balance_m this) (dmul (balance_m this) (interestRate_m this))"
      "exact_mul (balance_m (applyInterest this)) (interestRate_m this)"
      "exact_add (balance_m (applyInterest this))
         (dmul (balance_m (applyInterest this)) (interestRate_m this))"
  proof -
    have "valof (balance_m (applyInterest (applyInterest this))) =
        valof (balance_m (applyInterest this)) * (1 + valof (interestRate_m this))"
      using once [of "applyInterest this"] that(3,4) rate by simp
    also have "\<dots> = valof (balance_m this) * (1 + valof (interestRate_m this)) * (1 + valof (interestRate_m this))"
      using once [of this] that(1,2) by simp
    finally show ?thesis by (simp add: power2_eq_square)
  qed
  show ?thesis
    using once [of this] twice by (simp add: applyInterest_def)
qed

text \<open>A balance of 1000.0 at the rate 0.25: 1250.0 after one call, 1562.5 after two.\<close>

theorem applyInterest_rounded_witness:
  "exact_mul (Finite 125 3) (Finite 1 (- 2)) \<and>
   exact_add (Finite 125 3) (dmul (Finite 125 3) (Finite 1 (- 2))) \<and>
   exact_mul (Finite 625 1) (Finite 1 (- 2)) \<and>
   exact_add (Finite 625 1) (dmul (Finite 625 1) (Finite 1 (- 2))) \<and>
   valof (balance_m (applyInterest
      (deposit (Finite 125 3) (SavingsAccount 1 ''Alice Smith'' (Finite 1 (- 2)))))) = 1250 \<and>
   valof (balance_m (applyInterest (applyInterest
      (deposit (Finite 125 3) (SavingsAccount 1 ''Alice Smith'' (Finite 1 (- 2))))))) = 1562.5"
proof -
  let ?acc = "deposit (Finite 125 3) (SavingsAccount 1 ''Alice Smith'' (Finite 1 (- 2)))"
  have b: "balance_m ?acc = Finite 125 3" "interestRate_m ?acc = Finite 1 (- 2)"
    "balance_m (applyInterest ?acc) = Finite 625 1"
    by code_simp+
  have d: "dmul (Finite 125 3) (Finite 1 (- 2)) = Finite 125 1"
    "dadd (Finite 125 3) (Finite 125 1) = Finite 625 1"
    "dmul (Finite 625 1) (Finite 1 (- 2)) = Finite 625 (- 1)"
    "dadd (Finite 625 1) (Finite 625 (- 1)) = Finite 3125 (- 1)"
    by code_simp+
  have x: "exact_mul (Finite 125 3) (Finite 1 (- 2))"
    "exact_add (Finite 125 3) (dmul (Finite 125 3) (Finite 1 (- 2)))"
    "exact_mul (Finite 625 1) (Finite 1 (- 2))"
    "exact_add (Finite 625 1) (dmul (Finite 625 1) (Finite 1 (- 2)))"
    by (simp_all add: exact_mul_def exact_add_def d is_finite_def valof_def)
  have x': "exact_mul (balance_m ?acc) (interestRate_m ?acc)"
    "exact_add (balance_m ?acc) (dmul (balance_m ?acc) (interestRate_m ?acc))"
    "exact_mul (balance_m (applyInterest ?acc)) (interestRate_m ?acc)"
    "exact_add (balance_m (applyInterest ?acc)) (dmul (balance_m (applyInterest ?acc)) (interestRate_m ?acc))"
    by (simp_all only: b x)
  have t: "valof (balance_m (applyInterest ?acc)) =
      valof (balance_m ?acc) * (1 + valof (interestRate_m ?acc))"
    "valof (balance_m (applyInterest (applyInterest ?acc))) =
      valof (balance_m ?acc) * (1 + valof (interestRate_m ?acc)) ^ 2"
    using applyInterest_rounded [of ?acc] x' by blast+
  have v: "valof (balance_m ?acc) = 1000" "valof (interestRate_m ?acc) = 1 / 4"
    by (simp_all add: b valof_def)
  have "valof (balance_m (applyInterest ?acc)) = 1250"
    "valof (balance_m (applyInterest (applyInterest ?acc))) = 1562.5"
    by (simp_all only: t v) (simp_all add: power2_eq_square)
  with x show ?thesis by simp
qed

text \<open>
  A balance of 1.0 at the rate \<open>2 ^ - 53\<close>: the call leaves the balance at 1.0, which
  is not \<open>B * (1 + r)\<close>.
\<close>

theorem applyInterest_exactly_counterexample:
  "balance_m (deposit (Finite 1 0) (SavingsAccount 1 ''Alice Smith'' (Finite 1 (- 53)))) = Finite 1 0 \<and>
   interestRate_m (deposit (Finite 1 0) (SavingsAccount 1 ''Alice Smith'' (Finite 1 (- 53)))) = Finite 1 (- 53) \<and>
   balance_m (applyInterest
      (deposit (Finite 1 0) (SavingsAccount 1 ''Alice Smith'' (Finite 1 (- 53))))) = Finite 1 0 \<and>
   valof (Finite 1 0) \<noteq> valof (Finite 1 0) * (1 + valof (Finite 1 (- 53)))"
proof -
  have "balance_m (deposit (Finite 1 0) (SavingsAccount 1 ''Alice Smith'' (Finite 1 (- 53)))) = Finite 1 0"
    "interestRate_m (deposit (Finite 1 0) (SavingsAccount 1 ''Alice Smith'' (Finite 1 (- 53)))) = Finite 1 (- 53)"
    "balance_m (applyInterest
      (deposit (Finite 1 0) (SavingsAccount 1 ''Alice Smith'' (Finite 1 (- 53))))) = Finite 1 0"
    by code_simp+
  moreover have "valof (Finite 1 0) \<noteq> valof (Finite 1 0) * (1 + valof (Finite 1 (- 53)))"
    by (simp add: valof_def)
  ultimately show ?thesis by simp
qed

text \<open>
  C9. \<^verbatim>\<open>deposit\<close>, both \<^verbatim>\<open>withdraw\<close> methods and \<^verbatim>\<open>applyInterest\<close> leave the id, the
  name, the interest rate of a SavingsAccount and the overdraft limit of a
  CheckingAccount as they were, for every account and every amount; \<open>account.more\<close> is
  all that a derived class adds to an Account.
\<close>

theorem operations_frame:
  fixes this :: "'a account_scheme" and s :: savings_account and c :: checking_account
  shows
  "id_m (deposit amount this) = id_m this \<and> name_m (deposit amount this) = name_m this \<and>
   account.more (deposit amount this) = account.more this \<and>
   id_m (withdraw amount this) = id_m this \<and> name_m (withdraw amount this) = name_m this \<and>
   account.more (withdraw amount this) = account.more this \<and>
   interestRate_m (deposit amount s) = interestRate_m s \<and>
   interestRate_m (withdraw amount s) = interestRate_m s \<and>
   id_m (applyInterest s) = id_m s \<and> name_m (applyInterest s) = name_m s \<and>
   interestRate_m (applyInterest s) = interestRate_m s \<and>
   overdraftLimit_m (deposit amount c) = overdraftLimit_m c \<and>
   overdraftLimit_m (withdraw amount c) = overdraftLimit_m c \<and>
   id_m (CheckingAccount_withdraw amount c) = id_m c \<and>
   name_m (CheckingAccount_withdraw amount c) = name_m c \<and>
   overdraftLimit_m (CheckingAccount_withdraw amount c) = overdraftLimit_m c"
  by (simp add: deposit_def withdraw_def applyInterest_def CheckingAccount_withdraw_def)

section \<open>The overdraft limit over a sequence of operations\<close>

text \<open>Neither operation writes the limit.\<close>

lemma apply_op_limit: "overdraftLimit_m (apply_op x this) = overdraftLimit_m this"
  by (cases x) (simp_all add: deposit_def CheckingAccount_withdraw_def)

lemma run_ops_limit: "overdraftLimit_m (run_ops xs this) = overdraftLimit_m this"
  by (induction xs arbitrary: this) (simp_all add: apply_op_limit)

lemma within_limit_new:
  "is_finite limit \<Longrightarrow> 0 \<le> valof limit \<Longrightarrow> within_limit (CheckingAccount ident name limit)"
  by (simp add: within_limit_def CheckingAccount_def Account_def account.defs checking_account.defs
      is_finite_dzero valof_dzero)

text \<open>
  \<^verbatim>\<open>Account::withdraw\<close>, the method that \<^verbatim>\<open>CheckingAccount::withdraw\<close> overrides, tests
  the balance itself (\<^verbatim>\<open>balance_ >= amount\<close>), and rounding cannot take it past its
  bound: a balance that is not negative stays not negative, whatever the amount.
\<close>

lemma withdraw_not_below_zero:
  assumes "is_finite (balance_m this)" and "is_double (balance_m this)"
    and "0 \<le> valof (balance_m this)"
  shows "is_finite (balance_m (withdraw amount this)) \<and> 0 \<le> valof (balance_m (withdraw amount this))"
proof (cases "dgt amount dzero \<and> dge (balance_m this) amount")
  case True
  let ?B = "balance_m this"
  have fa: "is_finite amount"
    using True assms(1) by (cases amount; cases ?B) (simp_all add: dgt_def dge_def dzero_def is_finite_def)
  have a: "0 < valof amount" "valof amount \<le> valof ?B"
    using True fa assms(1) by (simp_all add: dgt_zero_valof dge_valof)
  have z: "is_double dzero"
    by (simp add: dzero_def is_double_zero)
  have lo: "dle dzero (dsub ?B amount)"
    using assms(1) fa is_finite_dzero z a(2) by (intro dsub_ge) (simp_all add: valof_dzero)
  have hi: "dle (dsub ?B amount) ?B"
    using assms fa a(1) by (intro dsub_le) simp_all
  have fin: "is_finite (dsub ?B amount)"
    using is_finite_dzero assms(1) lo hi by (rule dle_between_finite)
  with lo have "0 \<le> valof (dsub ?B amount)"
    by (simp add: dle_valof is_finite_dzero valof_dzero)
  with fin True show ?thesis
    by (simp add: withdraw_def)
next
  case False
  with assms show ?thesis
    by (auto simp add: withdraw_def)
qed

text \<open>
  C5. The balance of a CheckingAccount is never to fall below the negated limit, and
  the test \<^verbatim>\<open>(balance_ + overdraftLimit_) >= amount\<close> of \<^verbatim>\<open>CheckingAccount::withdraw\<close> is
  there to see to it. The test adds before it compares, and the sum is rounded: an
  amount above balance plus limit passes when the sum rounds up to it. On a new
  account with the limit 0.1, a deposit of 0.2 and a withdrawal of
  0.30000000000000004 leave a balance of -0.10000000000000003, below -0.1: the
  account was within its limit before the withdrawal and is not after it. On a new
  account with the limit 1.0, a deposit of 9007199254740994.0 and a withdrawal of
  9007199254740996.0 leave -2.0, below -1.0. All the numbers are values of
  \<^verbatim>\<open>double\<close>, and both limits are greater than zero.
\<close>

theorem overdraft_limit_exceeded:
  "is_double (Finite 3602879701896397 (- 55)) \<and> is_double (Finite 3602879701896397 (- 54)) \<and>
   is_double (Finite 1351079888211149 (- 52)) \<and>
   dgt (Finite 3602879701896397 (- 55)) dzero \<and>
   within_limit (run_ops [Deposit (Finite 3602879701896397 (- 54))]
     (CheckingAccount 2 ''Bob Jones'' (Finite 3602879701896397 (- 55)))) \<and>
   balance_m (run_ops [Deposit (Finite 3602879701896397 (- 54)), Withdraw (Finite 1351079888211149 (- 52))]
     (CheckingAccount 2 ''Bob Jones'' (Finite 3602879701896397 (- 55)))) = Finite (- 1801439850948199) (- 54) \<and>
   overdraftLimit_m (run_ops [Deposit (Finite 3602879701896397 (- 54)), Withdraw (Finite 1351079888211149 (- 52))]
     (CheckingAccount 2 ''Bob Jones'' (Finite 3602879701896397 (- 55)))) = Finite 3602879701896397 (- 55) \<and>
   dlt (Finite (- 1801439850948199) (- 54)) (dneg (Finite 3602879701896397 (- 55))) \<and>
   valof (Finite (- 1801439850948199) (- 54)) < - valof (Finite 3602879701896397 (- 55)) \<and>
   is_double (Finite 1 0) \<and> is_double (Finite 4503599627370497 1) \<and>
   is_double (Finite 2251799813685249 2) \<and> dgt (Finite 1 0) dzero \<and>
   balance_m (run_ops [Deposit (Finite 4503599627370497 1), Withdraw (Finite 2251799813685249 2)]
     (CheckingAccount 2 ''Bob Jones'' (Finite 1 0))) = Finite (- 1) 1 \<and>
   dlt (Finite (- 1) 1) (dneg (Finite 1 0)) \<and>
   valof (Finite (- 1) 1) < - valof (Finite 1 0)"
proof -
  let ?new = "CheckingAccount 2 ''Bob Jones'' (Finite 3602879701896397 (- 55))"
  have e: "is_double (Finite 3602879701896397 (- 55))" "is_double (Finite 3602879701896397 (- 54))"
    "is_double (Finite 1351079888211149 (- 52))"
    "dgt (Finite 3602879701896397 (- 55)) dzero"
    "balance_m (run_ops [Deposit (Finite 3602879701896397 (- 54))] ?new) = Finite 3602879701896397 (- 54)"
    "overdraftLimit_m (run_ops [Deposit (Finite 3602879701896397 (- 54))] ?new) = Finite 3602879701896397 (- 55)"
    "balance_m (run_ops [Deposit (Finite 3602879701896397 (- 54)), Withdraw (Finite 1351079888211149 (- 52))]
       ?new) = Finite (- 1801439850948199) (- 54)"
    "overdraftLimit_m (run_ops [Deposit (Finite 3602879701896397 (- 54)), Withdraw (Finite 1351079888211149 (- 52))]
       ?new) = Finite 3602879701896397 (- 55)"
    "dlt (Finite (- 1801439850948199) (- 54)) (dneg (Finite 3602879701896397 (- 55)))"
    "is_double (Finite 1 0)" "is_double (Finite 4503599627370497 1)"
    "is_double (Finite 2251799813685249 2)" "dgt (Finite 1 0) dzero"
    "balance_m (run_ops [Deposit (Finite 4503599627370497 1), Withdraw (Finite 2251799813685249 2)]
       (CheckingAccount 2 ''Bob Jones'' (Finite 1 0))) = Finite (- 1) 1"
    "dlt (Finite (- 1) 1) (dneg (Finite 1 0))"
    by code_simp+
  have v: "valof (Finite (- 1801439850948199) (- 54)) < - valof (Finite 3602879701896397 (- 55))"
    "valof (Finite (- 1) 1) < - valof (Finite 1 0)"
    "- valof (Finite 3602879701896397 (- 55)) \<le> valof (Finite 3602879701896397 (- 54))"
    by (simp_all add: valof_def power_int_minus field_simps)
  have "within_limit (run_ops [Deposit (Finite 3602879701896397 (- 54))] ?new)"
    unfolding within_limit_def e(5,6) using v(3) by (simp add: is_finite_def)
  with e v show ?thesis
    by simp
qed

section \<open>Creating accounts\<close>

text \<open>The string that \<^verbatim>\<open>create_account\<close> leaves in the name of the account.\<close>

lemma c_str_no_NUL: "c \<in> set (c_str bytes) \<Longrightarrow> c \<noteq> NUL"
  unfolding c_str_def by (auto dest: set_takeWhileD)

lemma c_str_before_NUL:
  assumes "\<forall>c \<in> set s. c \<noteq> NUL"
  shows "c_str (s @ NUL # rest) = s"
  using assms by (simp add: c_str_def)

lemma c_str_name_buffer:
  assumes "length dest = 50"
  shows "c_str ((strncpy dest src 49)[49 := NUL]) = take 49 (c_str src)"
proof -
  let ?s = "c_str src"
  obtain b where b: "drop 49 dest = [b]"
    using assms by (cases "drop 49 dest") (auto simp add: length_Suc_conv dest: arg_cong [where f = length])
  show ?thesis
  proof (cases "49 \<le> length ?s")
    case True
    then have "strncpy dest src 49 = take 49 ?s @ [b]"
      by (simp add: strncpy_def b)
    moreover have "length (take 49 ?s) = 49"
      using True by simp
    ultimately have "(strncpy dest src 49)[49 := NUL] = take 49 ?s @ NUL # []"
      by (simp add: list_update_append)
    moreover have "\<forall>c \<in> set (take 49 ?s). c \<noteq> NUL"
      by (auto dest: in_set_takeD c_str_no_NUL)
    ultimately show ?thesis
      by (simp only: c_str_before_NUL)
  next
    case False
    then obtain k where k: "49 - length ?s = Suc k"
      by (cases "49 - length ?s") auto
    have "take 49 (?s @ replicate 49 NUL) = ?s @ NUL # replicate k NUL"
      using False k by simp
    then have "strncpy dest src 49 = ?s @ NUL # (replicate k NUL @ [b])"
      by (simp add: strncpy_def b)
    then obtain rest where "(strncpy dest src 49)[49 := NUL] = ?s @ NUL # rest"
      using False by (cases "49 - length ?s") (auto simp add: list_update_append)
    moreover have "\<forall>c \<in> set ?s. c \<noteq> NUL"
      by (auto dest: c_str_no_NUL)
    ultimately have "c_str ((strncpy dest src 49)[49 := NUL]) = ?s"
      by (simp only: c_str_before_NUL)
    with False show ?thesis by simp
  qed
qed

lemma create_account_Some:
  "create_account (Some blk) ident name c =
     (Some \<lparr>id_c = ident, name_c = (strncpy (name_c blk) name 49)[49 := NUL], balance_c = Finite 0 0\<rparr>,
      c + 1)"
  by (simp add: create_account_def sizeof_name_def round_float_def round_fp_def Let_def)

text \<open>
  C10. \<^verbatim>\<open>create_account\<close> returns \<^verbatim>\<open>NULL\<close> when the allocation fails and then leaves
  \<^verbatim>\<open>account_counter\<close> as it was. When the allocation succeeds it returns an account
  with the given id, the given name cut after 49 bytes and a balance of exactly
  zero, and the counter is one further.
\<close>

theorem create_account_result:
  "create_account None ident name c = (None, c) \<and>
   (length (name_c blk) = sizeof_name \<longrightarrow>
      (\<exists>acc. create_account (Some blk) ident name c = (Some acc, c + 1) \<and>
         id_c acc = ident \<and> c_str (name_c acc) = take 49 (c_str name) \<and>
         balance_c acc = Finite 0 0))"
  by (simp add: create_account_Some c_str_name_buffer sizeof_name_def) (simp add: create_account_def)

text \<open>The call of \<^verbatim>\<open>main\<close>, and the same call when the allocation fails.\<close>

theorem create_account_result_witness:
  "length (name_c block0) = sizeof_name \<and>
   create_account None 1 ''John Doe'' 0 = (None, 0) \<and>
   (\<exists>acc. create_account (Some block0) 1 ''John Doe'' 0 = (Some acc, 1) \<and>
      id_c acc = 1 \<and> c_str (name_c acc) = ''John Doe'' \<and> balance_c acc = Finite 0 0)"
proof -
  have l: "length (name_c block0) = sizeof_name"
    by (simp add: block0_def sizeof_name_def)
  have s: "take 49 (c_str ''John Doe'') = ''John Doe''"
    by (simp add: c_str_def NUL_def)
  show ?thesis
    using create_account_result [of 1 "''John Doe''" 0 block0] l s by simp
qed

text \<open>
  C8, as the code has it. An account that \<^verbatim>\<open>create_account\<close> creates stores the first
  49 bytes of the given name: a longer name is cut without an error, a name of up to 49
  bytes is stored as it is. The constructors of the C++ classes store the given name
  as it is, whatever its length.
\<close>

theorem stored_name:
  "(length (name_c blk) = sizeof_name \<longrightarrow>
      (\<exists>acc c'. create_account (Some blk) ident name c = (Some acc, c') \<and>
         c_str (name_c acc) = take 49 (c_str name) \<and>
         length (c_str (name_c acc)) \<le> 49 \<and>
         (length (c_str name) \<le> 49 \<longrightarrow> c_str (name_c acc) = c_str name))) \<and>
   name_m (SavingsAccount ident' name' rate) = name' \<and>
   name_m (CheckingAccount ident' name' limit) = name' \<and>
   getName (SavingsAccount ident' name' rate) = name' \<and>
   getName (CheckingAccount ident' name' limit) = name'"
  by (simp add: create_account_Some c_str_name_buffer sizeof_name_def SavingsAccount_def
      CheckingAccount_def Account_def getName_def account.defs)

text \<open>A name of 60 bytes and the name of \<^verbatim>\<open>main\<close>, given to \<^verbatim>\<open>create_account\<close>.\<close>

theorem stored_name_witness:
  "length (name_c block0) = sizeof_name \<and>
   (\<exists>acc c'. create_account (Some block0) 1 (replicate 60 (CHR ''a'')) 0 = (Some acc, c') \<and>
      c_str (name_c acc) = replicate 49 (CHR ''a'')) \<and>
   (\<exists>acc c'. create_account (Some block0) 1 ''John Doe'' 0 = (Some acc, c') \<and>
      c_str (name_c acc) = ''John Doe'')"
proof -
  have l: "length (name_c block0) = sizeof_name"
    by (simp add: block0_def sizeof_name_def)
  have s: "c_str ''John Doe'' = ''John Doe''" "c_str (replicate 60 (CHR ''a'')) = replicate 60 (CHR ''a'')"
    by (simp_all add: c_str_def NUL_def)
  have "\<exists>acc c'. create_account (Some block0) 1 (replicate 60 (CHR ''a'')) 0 = (Some acc, c') \<and>
      c_str (name_c acc) = replicate 49 (CHR ''a'')"
    using stored_name [of block0 1 "replicate 60 (CHR ''a'')" 0, THEN conjunct1] l
    by (auto simp add: s)
  moreover have "\<exists>acc c'. create_account (Some block0) 1 ''John Doe'' 0 = (Some acc, c') \<and>
      c_str (name_c acc) = ''John Doe''"
    using stored_name [of block0 1 "''John Doe''" 0, THEN conjunct1] l
    by (auto simp add: s)
  ultimately show ?thesis
    using l by simp
qed

text \<open>A CheckingAccount constructed with a name of 60 bytes keeps all 60.\<close>

theorem stored_name_counterexample:
  "length (name_m (CheckingAccount 2 (replicate 60 (CHR ''a'')) (Finite 125 2))) = 60 \<and>
   name_m (CheckingAccount 2 (replicate 60 (CHR ''a'')) (Finite 125 2)) \<noteq>
     take 49 (replicate 60 (CHR ''a''))"
  by (simp add: CheckingAccount_def Account_def account.defs)

text \<open>The counter after a sequence of calls, and the ids of the accounts it created.\<close>

lemma create_accounts_counter:
  "snd (create_accounts rs c) = c + of_nat (length (filter (\<lambda>r. fst r \<noteq> None) rs))"
proof (induction rs arbitrary: c)
  case Nil
  then show ?case by simp
next
  case (Cons r rs)
  obtain mem ident name where r: "r = (mem, ident, name)"
    by (cases r)
  show ?case
  proof (cases mem)
    case None
    then show ?thesis
      using Cons.IH [of c] by (simp add: r create_account_def case_prod_unfold)
  next
    case (Some blk)
    then show ?thesis
      using Cons.IH [of "c + 1"] by (simp add: r create_account_Some case_prod_unfold)
  qed
qed

lemma create_accounts_ids:
  "map (map_option id_c) (fst (create_accounts rs c)) =
     map (\<lambda>(mem, ident, name). map_option (\<lambda>blk. ident) mem) rs"
proof (induction rs arbitrary: c)
  case Nil
  then show ?case by simp
next
  case (Cons r rs)
  obtain mem ident name where r: "r = (mem, ident, name)"
    by (cases r)
  show ?case
  proof (cases mem)
    case None
    then show ?thesis
      using Cons.IH [of c] by (simp add: r create_account_def case_prod_unfold)
  next
    case (Some blk)
    then show ?thesis
      using Cons.IH [of "c + 1"] by (simp add: r create_account_Some case_prod_unfold)
  qed
qed

lemma sint_of_nat_32:
  assumes "n < 2 ^ 31"
  shows "sint (of_nat n :: 32 word) = int n"
proof -
  have "sint (of_nat n :: 32 word) = signed_take_bit 31 (int n)"
    by (simp add: signed_of_nat)
  also have "\<dots> = int n"
    using assms by (intro signed_take_bit_int_eq_self) simp_all
  finally show ?thesis .
qed

lemma sint_succ_32:
  assumes "sint (c :: 32 word) < 2 ^ 31 - 1"
  shows "sint (c + 1) = sint c + 1"
proof -
  have "sint (c + 1) = signed_take_bit 31 (sint c + 1)"
    by (simp add: sint_word_ariths)
  also have "\<dots> = sint c + 1"
    using assms sint_ge [of c] by (intro signed_take_bit_int_eq_self) simp_all
  finally show ?thesis .
qed

text \<open>
  C7, as the code has it. After a sequence of \<open>N\<close> successful calls of
  \<^verbatim>\<open>create_account\<close> from the start of the process, \<^verbatim>\<open>account_counter\<close> is \<open>N\<close>, as
  long as \<open>N\<close> is at most 2147483647, the greatest \<^verbatim>\<open>int\<close>; a successful call moves a
  counter below that value forward by exactly one.
\<close>

theorem counter_counts_creations:
  "((\<forall>r \<in> set rs. fst r \<noteq> None) \<and> length rs < 2 ^ 31 \<longrightarrow>
      sint (snd (create_accounts rs account_counter_init)) = int (length rs)) \<and>
   (sint c < 2 ^ 31 - 1 \<longrightarrow> sint (snd (create_account (Some blk) ident name c)) = sint c + 1)"
proof -
  have "sint (snd (create_accounts rs account_counter_init)) = int (length rs)"
    if "\<forall>r \<in> set rs. fst r \<noteq> None" "length rs < 2 ^ 31"
  proof -
    from that(1) have "filter (\<lambda>r. fst r \<noteq> None) rs = rs"
      by (simp add: filter_id_conv)
    then have "snd (create_accounts rs account_counter_init) = of_nat (length rs)"
      by (simp add: create_accounts_counter account_counter_init_def)
    with that(2) show ?thesis
      by (simp add: sint_of_nat_32)
  qed
  then show ?thesis
    by (simp add: create_account_Some sint_succ_32)
qed

text \<open>Two successful calls from the start, and one call at a counter of 5.\<close>

theorem counter_counts_creations_witness:
  "list_all (\<lambda>r. fst r \<noteq> None) [(Some block0, 1 :: 32 word, ''John Doe''), (Some block0, 2, ''Jane Doe'')] \<and>
   length [(Some block0, 1 :: 32 word, ''John Doe''), (Some block0, 2, ''Jane Doe'')] < 2 ^ 31 \<and>
   sint (snd (create_accounts [(Some block0, 1, ''John Doe''), (Some block0, 2, ''Jane Doe'')]
      account_counter_init)) = 2 \<and>
   sint (5 :: 32 word) < 2 ^ 31 - 1 \<and>
   sint (snd (create_account (Some block0) 1 ''John Doe'' 5)) = 6"
  using counter_counts_creations
    [of "[(Some block0, 1, ''John Doe''), (Some block0, 2, ''Jane Doe'')]" 5 block0 1 "''John Doe''"]
  by simp

text \<open>After 2147483648 successful calls the counter is -2147483648.\<close>

theorem counter_overflow_counterexample:
  "sint (snd (create_accounts (replicate (2 ^ 31) (Some block0, 1, ''John Doe'')) account_counter_init))
     = - 2147483648"
proof -
  have "snd (create_accounts (replicate (2 ^ 31) (Some block0, 1, ''John Doe'')) account_counter_init)
      = (of_nat (2 ^ 31) :: 32 word)"
    by (simp add: create_accounts_counter account_counter_init_def)
  then show ?thesis by simp
qed

text \<open>
  C6, as the code has it. The id of an account is the id that the caller passes to
  \<^verbatim>\<open>create_account\<close> or to the constructor, whatever ids were passed before and
  whatever \<^verbatim>\<open>account_counter\<close> holds; the counter is never read.
\<close>

theorem ids_are_the_arguments:
  "map (map_option id_c) (fst (create_accounts rs c)) =
     map (\<lambda>(mem, ident, name). map_option (\<lambda>blk. ident) mem) rs \<and>
   id_m (SavingsAccount ident name' rate) = ident \<and>
   id_m (CheckingAccount ident name' limit) = ident \<and>
   getId (SavingsAccount ident name' rate) = ident \<and>
   getId (CheckingAccount ident name' limit) = ident"
  by (simp add: create_accounts_ids SavingsAccount_def CheckingAccount_def Account_def getId_def
      account.defs)

text \<open>
  Two accounts created with the id 1, one after the other, both have the id 1, while
  the counter goes to 2; a SavingsAccount and a CheckingAccount constructed with the
  id 7 both have the id 7.
\<close>

theorem ids_distinct_counterexample:
  "map (map_option id_c)
     (fst (create_accounts [(Some block0, 1, ''John Doe''), (Some block0, 1, ''Jane Doe'')]
        account_counter_init)) = [Some 1, Some 1] \<and>
   snd (create_accounts [(Some block0, 1, ''John Doe''), (Some block0, 1, ''Jane Doe'')]
        account_counter_init) = 2 \<and>
   id_m (SavingsAccount 7 ''Alice Smith'' (Finite 1 (- 2))) = 7 \<and>
   id_m (CheckingAccount 7 ''Bob Jones'' (Finite 125 2)) = 7"
  by (simp add: create_account_Some account_counter_init_def SavingsAccount_def CheckingAccount_def
      Account_def account.defs)

end
